theory Spec2Isabelle
  imports Complex_Main "HOL-Library.AList"
begin

section \<open>Arrays\<close>

text \<open>
  The numerical code of \<^verbatim>\<open>kalman.py\<close> works on numpy arrays. The embedding takes
  exact real arithmetic for the entries: a one-dimensional array is a list of reals, a
  two-dimensional array the list of its rows. The operations below are the numpy
  operations on arrays of conforming shapes; where numpy raises on a shape mismatch the
  theorems carry the shapes as hypotheses.
\<close>

type_synonym vec = "real list"

type_synonym mat = "real list list"

definition wf_mat :: "nat \<Rightarrow> nat \<Rightarrow> mat \<Rightarrow> bool" where
  "wf_mat n m A = (length A = n \<and> list_all (\<lambda>r. length r = m) A)"

definition vadd :: "vec \<Rightarrow> vec \<Rightarrow> vec" where
  "vadd u v = map2 (+) u v"

definition vsub :: "vec \<Rightarrow> vec \<Rightarrow> vec" where
  "vsub u v = map2 (-) u v"

definition vscale :: "real \<Rightarrow> vec \<Rightarrow> vec" where
  "vscale c v = map ((*) c) v"

definition dot :: "vec \<Rightarrow> vec \<Rightarrow> real" where
  "dot u v = sum_list (map2 (*) u v)"

definition ncols :: "mat \<Rightarrow> nat" where
  "ncols A = (case A of [] \<Rightarrow> 0 | r # _ \<Rightarrow> length r)"

definition col :: "mat \<Rightarrow> nat \<Rightarrow> vec" where
  "col A j = map (\<lambda>r. r ! j) A"

text \<open>\<^verbatim>\<open>A.T\<close>\<close>

definition mat_T :: "mat \<Rightarrow> mat" where
  "mat_T A = map (col A) [0..<ncols A]"

text \<open>\<^verbatim>\<open>A @ v\<close> for a matrix and a one-dimensional array.\<close>

definition mat_vec :: "mat \<Rightarrow> vec \<Rightarrow> vec" where
  "mat_vec A v = map (\<lambda>r. dot r v) A"

text \<open>\<^verbatim>\<open>A @ B\<close> for two matrices.\<close>

definition matmul :: "mat \<Rightarrow> mat \<Rightarrow> mat" where
  "matmul A B = map (\<lambda>r. map (\<lambda>j. dot r (col B j)) [0..<ncols B]) A"

definition madd :: "mat \<Rightarrow> mat \<Rightarrow> mat" where
  "madd A B = map2 vadd A B"

definition msub :: "mat \<Rightarrow> mat \<Rightarrow> mat" where
  "msub A B = map2 vsub A B"

definition mscale :: "real \<Rightarrow> mat \<Rightarrow> mat" where
  "mscale c A = map (vscale c) A"

text \<open>\<^verbatim>\<open>np.eye(n)\<close>, \<^verbatim>\<open>np.zeros((n, m))\<close>, \<^verbatim>\<open>np.zeros(n)\<close>, \<^verbatim>\<open>np.diag(v)\<close>,
  \<^verbatim>\<open>np.square(v)\<close>.\<close>

definition eye :: "nat \<Rightarrow> mat" where
  "eye n = map (\<lambda>i. map (\<lambda>j. if i = j then 1 else 0) [0..<n]) [0..<n]"

definition zeros :: "nat \<Rightarrow> nat \<Rightarrow> mat" where
  "zeros n m = replicate n (replicate m 0)"

definition zeros1 :: "nat \<Rightarrow> vec" where
  "zeros1 n = replicate n 0"

definition diag :: "vec \<Rightarrow> mat" where
  "diag v = map (\<lambda>i. map (\<lambda>j. if i = j then v ! i else 0) [0..<length v]) [0..<length v]"

definition square :: "vec \<Rightarrow> vec" where
  "square v = map (\<lambda>a. a * a) v"

text \<open>\<^verbatim>\<open>np.block\<close> on a list of rows of blocks: the blocks of one row are laid side by
  side, the rows of blocks are stacked.\<close>

fun block_row :: "mat list \<Rightarrow> mat" where
  "block_row [] = []"
| "block_row [A] = A"
| "block_row (A # As) = map2 (@) A (block_row As)"

definition block :: "mat list list \<Rightarrow> mat" where
  "block rows = concat (map block_row rows)"

subsection \<open>The linear solve\<close>

text \<open>
  \<^verbatim>\<open>np.linalg.solve(A, B)\<close> returns the \<open>X\<close> with \<open>A @ X = B\<close> and raises
  \<^verbatim>\<open>LinAlgError\<close> when \<open>A\<close> is singular. It is library code (an LU factorisation with
  pivoting); over exact arithmetic it is modelled by Gaussian elimination on the rows
  \<open>(a, b)\<close> of the augmented system: the first row with a nonzero leading coefficient
  is the pivot, the leading unknown is eliminated from the other rows, the smaller
  system is solved and the leading unknown is found by back substitution. No pivot in
  a column is the singular case: \<open>None\<close>.
\<close>

fun find_pivot :: "(vec \<times> vec) list \<Rightarrow> ((vec \<times> vec) \<times> (vec \<times> vec) list) option" where
  "find_pivot [] = None"
| "find_pivot ((a, b) # rs) =
     (if a \<noteq> [] \<and> hd a \<noteq> 0 then Some ((a, b), rs)
      else (case find_pivot rs of
              None \<Rightarrow> None
            | Some (p, rest) \<Rightarrow> Some (p, (a, b) # rest)))"

text \<open>\<open>lincomb m a X\<close> is the combination \<open>a\<^sub>0 X\<^sub>0 + a\<^sub>1 X\<^sub>1 + \<dots>\<close> of the rows of \<open>X\<close>,
  each of length \<open>m\<close>.\<close>

fun lincomb :: "nat \<Rightarrow> vec \<Rightarrow> vec list \<Rightarrow> vec" where
  "lincomb m (c # cs) (x # xs) = vadd (vscale c x) (lincomb m cs xs)"
| "lincomb m cs xs = replicate m 0"

fun gauss :: "nat \<Rightarrow> nat \<Rightarrow> (vec \<times> vec) list \<Rightarrow> vec list option" where
  "gauss m 0 rows = Some []"
| "gauss m (Suc n) rows =
     (case find_pivot rows of
        None \<Rightarrow> None
      | Some ((a, b), rest) \<Rightarrow>
          (let p = hd a;
               a' = map (\<lambda>c. c / p) (tl a);
               b' = map (\<lambda>c. c / p) b;
               reduced = map (\<lambda>(c, d). (vsub (tl c) (vscale (hd c) a'),
                                          vsub d (vscale (hd c) b'))) rest
           in (case gauss m n reduced of
                 None \<Rightarrow> None
               | Some X \<Rightarrow> Some (vsub b' (lincomb m a' X) # X))))"

definition solve :: "mat \<Rightarrow> mat \<Rightarrow> mat option" where
  "solve A B = gauss (ncols B) (length A) (zip A B)"

section \<open>The filter model: \<^verbatim>\<open>KalmanTracker\<close>\<close>

datatype error = LinAlgError | KeyError | ValueError | IndexError

record KalmanTracker =
  k_ndim :: nat
  k_I :: mat
  k_Z :: mat
  k_H :: mat
  k_R :: mat
  k_P0 :: mat

definition KalmanTracker_init :: "nat \<Rightarrow> vec \<Rightarrow> vec \<Rightarrow> KalmanTracker" where
  "KalmanTracker_init ndim sigma_z sigma_v =
     (let I = eye ndim;
          Z = zeros ndim ndim;
          H = block [[I, Z]];
          R = diag (square sigma_z);
          Pv = diag (square sigma_v)
      in \<lparr>k_ndim = ndim, k_I = I, k_Z = Z, k_H = H, k_R = R,
          k_P0 = block [[R, Z], [Z, Pv]]\<rparr>)"

definition KalmanTracker_start :: "KalmanTracker \<Rightarrow> vec \<Rightarrow> vec \<times> mat" where
  "KalmanTracker_start k z = (let vel = zeros1 (k_ndim k) in (z @ vel, k_P0 k))"

definition trans_F :: "KalmanTracker \<Rightarrow> real \<Rightarrow> mat" where
  "trans_F k dt = block [[k_I k, mscale dt (k_I k)], [k_Z k, k_I k]]"

definition KalmanTracker_predict :: "KalmanTracker \<Rightarrow> vec \<Rightarrow> mat \<Rightarrow> real \<Rightarrow> vec \<times> mat" where
  "KalmanTracker_predict k x P dt =
     (let F = trans_F k dt;
          x1 = mat_vec F x;
          P1 = matmul (matmul F P) (mat_T F)
      in (x1, P1))"

definition KalmanTracker_update ::
  "KalmanTracker \<Rightarrow> vec \<Rightarrow> mat \<Rightarrow> vec \<Rightarrow> real \<Rightarrow> error + (vec \<times> mat)" where
  "KalmanTracker_update k x P z dt =
     (let (x1, P1) = KalmanTracker_predict k x P dt;
          A = madd (matmul (matmul (k_H k) P1) (mat_T (k_H k))) (k_R k);
          B = matmul P1 (mat_T (k_H k))
      in (case solve A (mat_T B) of
            None \<Rightarrow> Inl LinAlgError
          | Some X \<Rightarrow>
              (let K = mat_T X;
                   I = eye (2 * k_ndim k);
                   G = msub I (matmul K (k_H k));
                   x2 = vadd (mat_vec G x1) (mat_vec K z);
                   P2 = matmul G P1
               in Inr (x2, P2))))"

section \<open>Boxes\<close>

text \<open>
  The quotient \<^verbatim>\<open>ax/np.maximum(a1, a2)\<close> is a numpy division: a zero denominator
  raises nothing, the result is \<^verbatim>\<open>nan\<close> for \<open>0/0\<close> and an infinity for a nonzero
  numerator. The embedding keeps these results apart from the reals.
\<close>

datatype npfloat = Val real | NaN | PInf | MInf

definition np_div :: "real \<Rightarrow> real \<Rightarrow> npfloat" where
  "np_div a b =
     (if b \<noteq> 0 then Val (a / b) else if a = 0 then NaN else if 0 < a then PInf else MInf)"

text \<open>\<^verbatim>\<open>1 - sim\<close>, and the comparison \<^verbatim>\<open><\<close> of two floats, false whenever one of them
  is \<^verbatim>\<open>nan\<close>.\<close>

fun one_minus :: "npfloat \<Rightarrow> npfloat" where
  "one_minus (Val s) = Val (1 - s)"
| "one_minus NaN = NaN"
| "one_minus PInf = MInf"
| "one_minus MInf = PInf"

fun np_less :: "npfloat \<Rightarrow> npfloat \<Rightarrow> bool" where
  "np_less (Val a) (Val b) = (a < b)"
| "np_less MInf (Val b) = True"
| "np_less MInf PInf = True"
| "np_less (Val a) PInf = True"
| "np_less x y = False"

definition box_area :: "real \<Rightarrow> real \<Rightarrow> real \<Rightarrow> real \<Rightarrow> real" where
  "box_area l t r b = (let w = max 0 (r - l); h = max 0 (b - t) in w * h)"

fun box_overlap :: "vec \<Rightarrow> vec \<Rightarrow> error + npfloat" where
  "box_overlap [l1, t1, r1, b1] [l2, t2, r2, b2] =
     (let lx = max l1 l2;
          tx = max t1 t2;
          rx = min r1 r2;
          bx = min b1 b2;
          a1 = box_area l1 t1 r1 b1;
          a2 = box_area l2 t2 r2 b2;
          ax = box_area lx tx rx bx;
          sim = np_div ax (max a1 a2)
      in Inr (one_minus sim))"
| "box_overlap box1 box2 = Inl ValueError"

section \<open>One tracked object: \<^verbatim>\<open>Track\<close>\<close>

text \<open>
  \<^verbatim>\<open>collections.deque(iterable, maxlen)\<close>: a bounded queue. Filling it from an iterable
  and appending to it keep the last \<open>maxlen\<close> items; with \<open>maxlen = 0\<close> it stays
  empty. (A \<^verbatim>\<open>maxlen\<close> of \<^verbatim>\<open>None\<close> makes the deque unbounded and a negative one raises
  at construction; the capacity is a natural number here.)
\<close>

record 'a deque =
  items :: "'a list"
  maxlen :: nat

definition deque_init :: "'a list \<Rightarrow> nat \<Rightarrow> 'a deque" where
  "deque_init xs n = \<lparr>items = drop (length xs - n) xs, maxlen = n\<rparr>"

definition deque_append :: "'a deque \<Rightarrow> 'a \<Rightarrow> 'a deque" where
  "deque_append d x =
     d\<lparr>items := drop (length (items d) + 1 - maxlen d) (items d @ [x])\<rparr>"

type_synonym sample = "real \<times> vec \<times> vec \<times> mat"

record 'l Track =
  trk_kalman :: KalmanTracker
  trk_l :: 'l
  trk_t :: real
  trk_x :: vec
  trk_P :: mat
  trk_hist :: "sample deque"

definition Track_init :: "KalmanTracker \<Rightarrow> nat \<Rightarrow> 'l \<Rightarrow> real \<Rightarrow> vec \<Rightarrow> 'l Track" where
  "Track_init kalman len l t z =
     (let (x, P) = KalmanTracker_start kalman z
      in \<lparr>trk_kalman = kalman, trk_l = l, trk_t = t, trk_x = x, trk_P = P,
          trk_hist = deque_init [(t, z, x, P)] len\<rparr>)"

definition Track_predict :: "'l Track \<Rightarrow> real \<Rightarrow> vec \<times> mat" where
  "Track_predict trk t =
     (let dt = t - trk_t trk
      in KalmanTracker_predict (trk_kalman trk) (trk_x trk) (trk_P trk) dt)"

text \<open>
  \<^verbatim>\<open>Track.update\<close> mutates the track, so the model returns the track as the call leaves
  it together with the outcome: \<open>Inl\<close> the exception that escaped, \<open>Inr ()\<close> a normal
  return. The timestamp is assigned before the filter is called.
\<close>

definition Track_update :: "real \<Rightarrow> vec \<Rightarrow> 'l Track \<Rightarrow> (error + unit) \<times> 'l Track" where
  "Track_update t z trk =
     (let dt = t - trk_t trk;
          trk1 = trk\<lparr>trk_t := t\<rparr>
      in (case KalmanTracker_update (trk_kalman trk1) (trk_x trk1) (trk_P trk1) z dt of
            Inl err \<Rightarrow> (Inl err, trk1)
          | Inr (x2, P2) \<Rightarrow>
              (let trk2 = trk1\<lparr>trk_x := x2, trk_P := P2\<rparr>
               in (Inr (), trk2\<lparr>trk_hist := deque_append (trk_hist trk2) (t, z, x2, P2)\<rparr>))))"

section \<open>The registry: \<^verbatim>\<open>BoxTracker\<close>\<close>

text \<open>
  \<^verbatim>\<open>self.tracks\<close> is a Python dictionary, iterated in insertion order: an association
  list, where \<^verbatim>\<open>d[i] = v\<close> is \<^const>\<open>AList.update\<close> (in place for a key that is present,
  at the end for a new one) and \<^verbatim>\<open>d.pop(i)\<close> removes the key.
\<close>

definition kalman_args :: "nat \<times> vec \<times> vec" where
  "kalman_args = (4, [5 / 100, 5 / 100, 5 / 100, 5 / 100], [1 / 2, 1 / 2, 1 / 2, 1 / 2])"

record 'l BoxTracker =
  timeout :: real
  cutoff :: real
  length' :: nat
  kalman :: KalmanTracker
  nextid :: nat
  tracks :: "(nat \<times> 'l Track) list"

definition BoxTracker_reset :: "'l BoxTracker \<Rightarrow> 'l BoxTracker" where
  "BoxTracker_reset reg = reg\<lparr>nextid := 0, tracks := []\<rparr>"

definition BoxTracker_init :: "real \<Rightarrow> real \<Rightarrow> nat \<Rightarrow> 'l BoxTracker" where
  "BoxTracker_init tmo cu len =
     BoxTracker_reset
       \<lparr>timeout = tmo, cutoff = cu, length' = len,
        kalman = (case kalman_args of (ndim, sigma_z, sigma_v) \<Rightarrow>
                    KalmanTracker_init ndim sigma_z sigma_v),
        nextid = 0, tracks = []\<rparr>"

definition BoxTracker_add :: "'l \<Rightarrow> real \<Rightarrow> vec \<Rightarrow> 'l BoxTracker \<Rightarrow> nat \<times> 'l BoxTracker" where
  "BoxTracker_add l t z reg =
     (let i = nextid reg;
          reg1 = reg\<lparr>nextid := nextid reg + 1\<rparr>
      in (i, reg1\<lparr>tracks := AList.update i (Track_init (kalman reg1) (length' reg1) l t z)
                                 (tracks reg1)\<rparr>))"

definition BoxTracker_pop :: "nat \<Rightarrow> 'l BoxTracker \<Rightarrow> (error + 'l Track) \<times> 'l BoxTracker" where
  "BoxTracker_pop i reg =
     (case map_of (tracks reg) i of
        None \<Rightarrow> (Inl KeyError, reg)
      | Some trk \<Rightarrow> (Inr trk, reg\<lparr>tracks := AList.delete i (tracks reg)\<rparr>))"

subsection \<open>Candidate pairs\<close>

type_synonym cand = "nat \<times> nat \<times> npfloat"

fun pairs_row ::
  "real \<Rightarrow> (nat \<times> vec \<times> mat) list \<Rightarrow> nat \<Rightarrow> 'l \<Rightarrow> vec \<Rightarrow> (nat \<times> 'l Track) list
     \<Rightarrow> error + cand list" where
  "pairs_row cu locs k1 l1 c1 [] = Inr []"
| "pairs_row cu locs k1 l1 c1 ((i2, trk) # rest) =
     (case map_of locs i2 of
        None \<Rightarrow> Inl KeyError
      | Some (x1, P1) \<Rightarrow>
          (let l2 = trk_l trk; c2 = take 4 x1
           in if l1 = l2 then
                (case box_overlap c1 c2 of
                   Inl err \<Rightarrow> Inl err
                 | Inr e \<Rightarrow>
                     (case pairs_row cu locs k1 l1 c1 rest of
                        Inl err \<Rightarrow> Inl err
                      | Inr es \<Rightarrow> Inr (if np_less e (Val cu) then (k1, i2, e) # es else es)))
              else pairs_row cu locs k1 l1 c1 rest))"

fun pairs ::
  "real \<Rightarrow> (nat \<times> vec \<times> mat) list \<Rightarrow> (nat \<times> 'l \<times> vec) list \<Rightarrow> (nat \<times> 'l Track) list
     \<Rightarrow> error + cand list" where
  "pairs cu locs [] trks = Inr []"
| "pairs cu locs ((k1, l1, c1) # rest) trks =
     (case pairs_row cu locs k1 l1 c1 trks of
        Inl err \<Rightarrow> Inl err
      | Inr es \<Rightarrow>
          (case pairs cu locs rest trks of
             Inl err \<Rightarrow> Inl err
           | Inr es' \<Rightarrow> Inr (es @ es')))"

subsection \<open>Greedy association\<close>

definition cost :: "cand \<Rightarrow> npfloat" where
  "cost c = snd (snd c)"

text \<open>\<^verbatim>\<open>min(errs, key=itemgetter(2))\<close>: the running minimum is replaced only by an item
  whose key is smaller, so the first of several minimal items is returned; an empty
  list raises \<^verbatim>\<open>ValueError\<close>.\<close>

fun min_key :: "cand list \<Rightarrow> cand option" where
  "min_key [] = None"
| "min_key (c # cs) =
     Some (foldl (\<lambda>best c'. if np_less (cost c') (cost best) then c' else best) c cs)"

text \<open>The loop \<^verbatim>\<open>for _ in range(len(errs))\<close>: the first argument counts the iterations
  that \<^verbatim>\<open>range\<close> has left.\<close>

fun greedy_loop :: "nat \<Rightarrow> cand list \<Rightarrow> cand list \<Rightarrow> error + cand list" where
  "greedy_loop 0 errs final = Inr final"
| "greedy_loop (Suc n) errs final =
     (case min_key errs of
        None \<Rightarrow> Inl ValueError
      | Some (k, j, e) \<Rightarrow>
          (let final' = final @ [(k, j, e)];
               errs' = filter (\<lambda>(k1, j1, e1). k1 \<noteq> k \<and> j1 \<noteq> j) errs
           in if length errs' = 0 then Inr final' else greedy_loop n errs' final'))"

definition greedy :: "cand list \<Rightarrow> error + cand list" where
  "greedy errs = greedy_loop (length errs) errs []"

subsection \<open>The frame update\<close>

text \<open>\<^verbatim>\<open>for k, j, e in final\<close>: the matched tracks are updated one after the other; an
  exception leaves the tracks updated so far as they are.\<close>

fun commit ::
  "real \<Rightarrow> ('l \<times> vec) list \<Rightarrow> cand list \<Rightarrow> (nat \<times> 'l Track) list \<Rightarrow> (nat \<rightharpoonup> nat)
     \<Rightarrow> (error + (nat \<rightharpoonup> nat)) \<times> (nat \<times> 'l Track) list" where
  "commit t boxes [] trks mapper = (Inr mapper, trks)"
| "commit t boxes ((k, j, e) # final) trks mapper =
     (if \<not> k < length boxes then (Inl IndexError, trks)
      else (case map_of trks j of
              None \<Rightarrow> (Inl KeyError, trks)
            | Some trk \<Rightarrow>
                (case Track_update t (snd (boxes ! k)) trk of
                   (Inl err, trk') \<Rightarrow> (Inl err, AList.update j trk' trks)
                 | (Inr u, trk') \<Rightarrow>
                     commit t boxes final (AList.update j trk' trks) (mapper(k \<mapsto> j)))))"

fun create ::
  "real \<Rightarrow> (nat \<times> 'l \<times> vec) list \<Rightarrow> (nat \<rightharpoonup> nat) \<Rightarrow> 'l BoxTracker
     \<Rightarrow> nat list \<times> 'l BoxTracker" where
  "create t [] mapper reg = ([], reg)"
| "create t ((k, l, c) # rest) mapper reg =
     (case mapper k of
        Some j \<Rightarrow> (let (match, reg') = create t rest mapper reg in (j # match, reg'))
      | None \<Rightarrow>
          (let (i, reg1) = BoxTracker_add l t c reg;
               (match, reg') = create t rest (mapper(k \<mapsto> i)) reg1
           in (i # match, reg')))"

text \<open>The matching and creation phases of \<^verbatim>\<open>BoxTracker.update\<close>, up to the comment
  \<^verbatim>\<open># clear out old tracks\<close>.\<close>

definition match_create ::
  "real \<Rightarrow> ('l \<times> vec) list \<Rightarrow> 'l BoxTracker \<Rightarrow> (error + nat list) \<times> 'l BoxTracker" where
  "match_create t boxes reg =
     (let locs = map (\<lambda>(i, trk). (i, Track_predict trk t)) (tracks reg)
      in (case pairs (cutoff reg) locs (enumerate 0 boxes) (tracks reg) of
            Inl err \<Rightarrow> (Inl err, reg)
          | Inr errs \<Rightarrow>
              (case greedy errs of
                 Inl err \<Rightarrow> (Inl err, reg)
               | Inr final \<Rightarrow>
                   (case commit t boxes final (tracks reg) Map.empty of
                      (Inl err, trks) \<Rightarrow> (Inl err, reg\<lparr>tracks := trks\<rparr>)
                    | (Inr mapper, trks) \<Rightarrow>
                        (let (match, reg') =
                               create t (enumerate 0 boxes) mapper (reg\<lparr>tracks := trks\<rparr>)
                         in (Inr match, reg'))))))"

fun pop_all ::
  "nat list \<Rightarrow> 'l BoxTracker \<Rightarrow> (nat \<times> 'l Track) list
     \<Rightarrow> (error + (nat \<times> 'l Track) list) \<times> 'l BoxTracker" where
  "pop_all [] reg done = (Inr done, reg)"
| "pop_all (i # is) reg done =
     (case BoxTracker_pop i reg of
        (Inl err, reg') \<Rightarrow> (Inl err, reg')
      | (Inr trk, reg') \<Rightarrow> pop_all is reg' (AList.update i trk done))"

definition stale :: "real \<Rightarrow> real \<Rightarrow> nat \<times> 'l Track \<Rightarrow> bool" where
  "stale t tmo p = (t > trk_t (snd p) + tmo)"

definition evict ::
  "real \<Rightarrow> 'l BoxTracker \<Rightarrow> (error + (nat \<times> 'l Track) list) \<times> 'l BoxTracker" where
  "evict t reg =
     (let idone = map fst (filter (stale t (timeout reg)) (tracks reg))
      in pop_all idone reg [])"

definition BoxTracker_update ::
  "real \<Rightarrow> ('l \<times> vec) list \<Rightarrow> 'l BoxTracker
     \<Rightarrow> (error + (nat list \<times> (nat \<times> 'l Track) list)) \<times> 'l BoxTracker" where
  "BoxTracker_update t boxes reg =
     (case match_create t boxes reg of
        (Inl err, reg') \<Rightarrow> (Inl err, reg')
      | (Inr match, reg') \<Rightarrow>
          (case evict t reg' of
             (Inl err, reg'') \<Rightarrow> (Inl err, reg'')
           | (Inr done, reg'') \<Rightarrow> (Inr (match, done), reg'')))"

section \<open>Notions used to state the properties\<close>

text \<open>The association as the specification words it: the first candidate, in candidate
  order, that no candidate undercuts is committed; the candidates that share its
  detection index or its track id are discarded; and so on until none is left.\<close>

definition first_min :: "cand list \<Rightarrow> cand option" where
  "first_min errs = find (\<lambda>c. list_all (\<lambda>c'. \<not> np_less (cost c') (cost c)) errs) errs"

definition discard :: "nat \<Rightarrow> nat \<Rightarrow> cand list \<Rightarrow> cand list" where
  "discard k j errs = filter (\<lambda>(k1, j1, e1). k1 \<noteq> k \<and> j1 \<noteq> j) errs"

function greedy_spec :: "cand list \<Rightarrow> cand list" where
  "greedy_spec errs =
     (case first_min errs of
        None \<Rightarrow> []
      | Some (k, j, e) \<Rightarrow> (k, j, e) # greedy_spec (discard k j errs))"
  by pat_completeness auto
termination
proof (relation "measure length")
  fix errs :: "cand list" and c k p j e
  assume "first_min errs = Some c" and "(k, p) = c" and "(j, e) = p"
  then have "(k, j, e) \<in> set errs"
    unfolding first_min_def by (auto simp: find_Some_iff)
  moreover have "\<not> (case (k, j, e) of (k1, j1, e1) \<Rightarrow> k1 \<noteq> k \<and> j1 \<noteq> j)" by simp
  ultimately have "length (discard k j errs) < length errs"
    unfolding discard_def by (rule length_filter_less)
  then show "(discard k j errs, errs) \<in> measure length" by simp
qed simp
declare greedy_spec.simps [simp del]

definition pick :: "cand \<Rightarrow> cand \<Rightarrow> cand" where
  "pick best c' = (if np_less (cost c') (cost best) then c' else best)"

text \<open>A sequence of \<^verbatim>\<open>update\<close> calls on one track. A call that raises leaves the track
  as it is at that point and the caller goes on with it; the number returned counts the
  calls that returned normally.\<close>

fun run_updates :: "(real \<times> vec) list \<Rightarrow> 'l Track \<Rightarrow> nat \<times> 'l Track" where
  "run_updates [] trk = (0, trk)"
| "run_updates ((t, z) # calls) trk =
     (case Track_update t z trk of
        (Inl err, trk') \<Rightarrow> run_updates calls trk'
      | (Inr u, trk') \<Rightarrow> (let (k, trk'') = run_updates calls trk' in (Suc k, trk'')))"

definition demo_kalman :: KalmanTracker where
  "demo_kalman = KalmanTracker_init 1 [1] [1]"

definition demo_track :: "unit Track" where
  "demo_track = Track_init demo_kalman 2 () 0 [0]"

definition demo_track1 :: "unit Track" where
  "demo_track1 =
     \<lparr>trk_kalman = demo_kalman, trk_l = (), trk_t = 1, trk_x = [2 / 3, 1 / 3],
      trk_P = [[2 / 3, 1 / 3], [1 / 3, 2 / 3]],
      trk_hist = \<lparr>items = [(0, [0], [0, 0], [[1, 0], [0, 1]]),
                           (1, [1], [2 / 3, 1 / 3], [[2 / 3, 1 / 3], [1 / 3, 2 / 3]])],
                  maxlen = 2\<rparr>\<rparr>"

definition demo_track2 :: "unit Track" where
  "demo_track2 =
     \<lparr>trk_kalman = demo_kalman, trk_l = (), trk_t = 2, trk_x = [5 / 3, 2 / 3],
      trk_P = [[2 / 3, 1 / 3], [1 / 3, 1 / 3]],
      trk_hist = \<lparr>items = [(1, [1], [2 / 3, 1 / 3], [[2 / 3, 1 / 3], [1 / 3, 2 / 3]]),
                           (2, [2], [5 / 3, 2 / 3], [[2 / 3, 1 / 3], [1 / 3, 1 / 3]])],
                  maxlen = 2\<rparr>\<rparr>"

text \<open>The keys of the dictionary are distinct, and every identifier in use lies below
  the counter.\<close>

definition reg_ok :: "'l BoxTracker \<Rightarrow> bool" where
  "reg_ok reg =
     (distinct (map fst (tracks reg)) \<and> list_all (\<lambda>i. i < nextid reg) (map fst (tracks reg)))"

definition stamped :: "real \<Rightarrow> (nat \<times> 'l Track) list \<Rightarrow> nat \<Rightarrow> bool" where
  "stamped t trks i = (case map_of trks i of None \<Rightarrow> False | Some trk \<Rightarrow> trk_t trk = t)"

text \<open>
  The operations a caller applies to a registry after \<^verbatim>\<open>reset\<close> has initialised it.
  A step returns the identifiers it has handed out for new tracks: the one \<^verbatim>\<open>add\<close>
  returns, and of the identifiers that a frame update returns those that named no
  live track before the call. A call that raises (\<^verbatim>\<open>pop\<close> of an unknown identifier, a
  failing update) leaves the registry as it is at that point, and the run goes on.
\<close>

datatype 'l op = Add 'l real vec | Pop nat | Update real "('l \<times> vec) list"

fun step :: "'l op \<Rightarrow> 'l BoxTracker \<Rightarrow> nat list \<times> 'l BoxTracker" where
  "step (Add l t z) reg = (case BoxTracker_add l t z reg of (i, reg') \<Rightarrow> ([i], reg'))"
| "step (Pop i) reg = ([], snd (BoxTracker_pop i reg))"
| "step (Update t boxes) reg =
     (case BoxTracker_update t boxes reg of
        (Inl err, reg') \<Rightarrow> ([], reg')
      | (Inr (match, dn), reg') \<Rightarrow>
          (filter (\<lambda>i. i \<notin> fst ` set (tracks reg)) match, reg'))"

fun run :: "'l op list \<Rightarrow> 'l BoxTracker \<Rightarrow> nat list \<times> 'l BoxTracker" where
  "run [] reg = ([], reg)"
| "run (c # cs) reg =
     (case step c reg of (ids, reg') \<Rightarrow>
        (case run cs reg' of (ids', reg'') \<Rightarrow> (ids @ ids', reg'')))"

definition demo_reg :: "string BoxTracker" where
  "demo_reg = BoxTracker_init 2 (1 / 5) 250"

definition car_track :: "string Track" where
  "car_track = Track_init (kalman demo_reg) 250 ''car'' 0 [0, 0, 10, 10]"

definition bus_track :: "string Track" where
  "bus_track = Track_init (kalman demo_reg) 250 ''bus'' 4 [20, 0, 30, 10]"

definition demo_reg1 :: "string BoxTracker" where
  "demo_reg1 = demo_reg\<lparr>nextid := 1, tracks := [(0, car_track)]\<rparr>"

definition demo_reg2 :: "string BoxTracker" where
  "demo_reg2 = demo_reg\<lparr>nextid := 2, tracks := [(1, bus_track)]\<rparr>"




definition sym_mat :: "mat \<Rightarrow> bool" where
  "sym_mat P = (mat_T P = P)"

definition psd :: "nat \<Rightarrow> mat \<Rightarrow> bool" where
  "psd n P = (\<forall>v. length v = n \<longrightarrow> 0 \<le> dot v (mat_vec P v))"

text \<open>A square matrix is nonsingular when only the zero vector is mapped to zero.\<close>

definition nonsingular :: "nat \<Rightarrow> mat \<Rightarrow> bool" where
  "nonsingular n A = (\<forall>v. length v = n \<longrightarrow> mat_vec A v = replicate n 0 \<longrightarrow> v = replicate n 0)"

section \<open>The matching cost\<close>










section \<open>The greedy association\<close>

lemma first_min_mem: "first_min errs = Some c \<Longrightarrow> c \<in> set errs"
  unfolding first_min_def by (auto simp: find_Some_iff)

lemma discard_shorter: "(k, j, e) \<in> set errs \<Longrightarrow> length (discard k j errs) < length errs"
  unfolding discard_def by (rule length_filter_less [where x = "(k, j, e)"]) auto

lemma np_less_trans:
  "np_less x y \<Longrightarrow> np_less y z \<Longrightarrow> np_less x z"
  by (cases x; cases y; cases z) auto

lemma np_less_asym: "np_less x y \<Longrightarrow> \<not> np_less y x"
  by (cases x; cases y) auto

lemma np_less_irrefl: "\<not> np_less x x"
  by (cases x) auto

lemma np_less_negtrans:
  "y \<noteq> NaN \<Longrightarrow> z \<noteq> NaN \<Longrightarrow> np_less x y \<Longrightarrow> \<not> np_less z y \<Longrightarrow> np_less x z"
  by (cases x; cases y; cases z) auto

lemma foldl_pick_split:
  assumes "\<forall>c \<in> set (c0 # cs). cost c \<noteq> NaN"
  shows "\<exists>ys zs. c0 # cs = ys @ foldl pick c0 cs # zs
           \<and> (\<forall>y \<in> set ys. np_less (cost (foldl pick c0 cs)) (cost y))
           \<and> (\<forall>z \<in> set zs. \<not> np_less (cost z) (cost (foldl pick c0 cs)))"
  using assms
proof (induction cs rule: rev_induct)
  case Nil
  have "[c0] = [] @ c0 # []" by simp
  then show ?case by fastforce
next
  case (snoc x cs)
  let ?b = "foldl pick c0 cs"
  from snoc obtain ys zs where split: "c0 # cs = ys @ ?b # zs"
    and before: "\<forall>y \<in> set ys. np_less (cost ?b) (cost y)"
    and after: "\<forall>z \<in> set zs. \<not> np_less (cost z) (cost ?b)"
    by auto
  have nn: "\<forall>c \<in> set (c0 # cs). cost c \<noteq> NaN" using snoc.prems by simp
  have bmem: "?b \<in> set (c0 # cs)" using split by (metis in_set_conv_decomp)
  show ?case
  proof (cases "np_less (cost x) (cost ?b)")
    case True
    then have fx: "foldl pick c0 (cs @ [x]) = x" by (simp add: pick_def)
    have "\<forall>y \<in> set (c0 # cs). np_less (cost x) (cost y)"
    proof
      fix y assume "y \<in> set (c0 # cs)"
      then have "y \<in> set ys \<or> y = ?b \<or> y \<in> set zs" using split
        by (metis Un_iff set_ConsD set_append)
      then show "np_less (cost x) (cost y)"
      proof (elim disjE)
        assume "y \<in> set ys"
        then show ?thesis using before True np_less_trans by blast
      next
        assume "y = ?b" then show ?thesis using True by simp
      next
        assume yz: "y \<in> set zs"
        then have "y \<in> set (c0 # cs)" using split by (metis Un_iff list.set_intros(2) set_append)
        then have "cost y \<noteq> NaN" "cost ?b \<noteq> NaN" using nn bmem by blast+
        then show ?thesis using np_less_negtrans [OF _ _ True] after yz by blast
      qed
    qed
    moreover have "c0 # cs @ [x] = (c0 # cs) @ x # []" by simp
    ultimately show ?thesis unfolding fx by (metis empty_iff list.set(1))
  next
    case False
    then have fx: "foldl pick c0 (cs @ [x]) = ?b" by (simp add: pick_def)
    have "c0 # cs @ [x] = ys @ ?b # (zs @ [x])" using split by simp
    moreover have "\<forall>z \<in> set (zs @ [x]). \<not> np_less (cost z) (cost ?b)"
      using after False by simp
    ultimately show ?thesis unfolding fx using before by blast
  qed
qed

lemma find_split:
  assumes "\<forall>y \<in> set ys. \<not> P y" and "P b"
  shows "find P (ys @ b # zs) = Some b"
  using assms by (induction ys) auto

lemma min_key_first_min:
  assumes "\<forall>c \<in> set errs. cost c \<noteq> NaN"
  shows "min_key errs = first_min errs"
proof (cases errs)
  case Nil
  then show ?thesis by (simp add: first_min_def)
next
  case (Cons c0 cs)
  let ?b = "foldl pick c0 cs"
  from foldl_pick_split [of c0 cs] assms Cons obtain ys zs where
    split: "errs = ys @ ?b # zs"
    and before: "\<forall>y \<in> set ys. np_less (cost ?b) (cost y)"
    and after: "\<forall>z \<in> set zs. \<not> np_less (cost z) (cost ?b)"
    by auto
  let ?P = "\<lambda>c. list_all (\<lambda>c'. \<not> np_less (cost c') (cost c)) errs"
  have "\<forall>y \<in> set ys. \<not> ?P y"
  proof
    fix y assume "y \<in> set ys"
    then have "np_less (cost ?b) (cost y)" using before by blast
    moreover have "?b \<in> set errs" using split by simp
    ultimately show "\<not> ?P y" by (auto simp: list_all_iff)
  qed
  moreover have "?P ?b"
    unfolding list_all_iff
  proof
    fix c' assume "c' \<in> set errs"
    then have "c' \<in> set ys \<or> c' = ?b \<or> c' \<in> set zs" using split by auto
    then show "\<not> np_less (cost c') (cost ?b)"
      using before after np_less_asym np_less_irrefl by blast
  qed
  ultimately have "find ?P (ys @ ?b # zs) = Some ?b" by (rule find_split)
  then have "first_min errs = Some ?b" using split by (simp add: first_min_def)
  moreover have "min_key errs = Some ?b"
    using Cons by (simp add: pick_def [abs_def])
  ultimately show ?thesis by simp
qed

lemma discard_no_nan:
  "\<forall>c \<in> set errs. cost c \<noteq> NaN \<Longrightarrow> \<forall>c \<in> set (discard k j errs). cost c \<noteq> NaN"
  by (simp add: discard_def)

lemma greedy_loop_spec:
  assumes "errs \<noteq> []" and "length errs \<le> n" and "\<forall>c \<in> set errs. cost c \<noteq> NaN"
  shows "greedy_loop n errs final = Inr (final @ greedy_spec errs)"
  using assms
proof (induction n arbitrary: errs final)
  case 0
  then show ?case by simp
next
  case (Suc n)
  have mk: "min_key errs = first_min errs" using Suc.prems(3) by (rule min_key_first_min)
  from Suc.prems(1) obtain c where "min_key errs = Some c"
    by (cases errs) simp_all
  then obtain k j e where m: "min_key errs = Some (k, j, e)"
    by (cases c) simp
  then have fm: "first_min errs = Some (k, j, e)" using mk by simp
  have mem: "(k, j, e) \<in> set errs" using fm by (rule first_min_mem)
  let ?errs' = "discard k j errs"
  have spec: "greedy_spec errs = (k, j, e) # greedy_spec ?errs'"
    by (subst greedy_spec.simps) (simp add: fm)
  show ?case
  proof (cases "?errs' = []")
    case True
    then have "greedy_spec ?errs' = []"
      by (subst greedy_spec.simps) (simp add: first_min_def)
    then have "greedy_spec errs = [(k, j, e)]" using spec by simp
    moreover have "filter (\<lambda>(k1, j1, e1). k1 \<noteq> k \<and> j1 \<noteq> j) errs = []"
      using True by (simp only: discard_def)
    ultimately show ?thesis using m by simp
  next
    case False
    have "length ?errs' \<le> n" using discard_shorter [OF mem] Suc.prems(2) by simp
    then have "greedy_loop n ?errs' (final @ [(k, j, e)]) =
          Inr ((final @ [(k, j, e)]) @ greedy_spec ?errs')"
      using Suc.IH [OF False] discard_no_nan [OF Suc.prems(3)] by blast
    moreover have "filter (\<lambda>(k1, j1, e1). k1 \<noteq> k \<and> j1 \<noteq> j) errs = ?errs'"
      by (simp only: discard_def)
    ultimately show ?thesis using False m spec by simp
  qed
qed

text \<open>
  Claim C3. On a candidate list whose costs are numbers (the candidates retained below
  the cutoff are: \<^verbatim>\<open>nan < cutoff\<close> is false), the loop of \<^verbatim>\<open>BoxTracker.update\<close> returns
  normally with exactly the association \<^const>\<open>greedy_spec\<close>: it commits the first
  candidate of globally smallest cost, discards the candidates sharing its detection
  index or its track id, and goes on until no candidate is left. The result is a
  function of the candidate list alone.
\<close>

theorem greedy_refines_spec:
  assumes "\<forall>c \<in> set errs. cost c \<noteq> NaN"
  shows "greedy errs = Inr (greedy_spec errs)"
proof (cases "errs = []")
  case True
  then show ?thesis
    by (subst greedy_spec.simps) (simp add: greedy_def first_min_def)
next
  case False
  then show ?thesis
    unfolding greedy_def using greedy_loop_spec [OF False le_refl assms, of "[]"] by simp
qed

theorem greedy_refines_spec_witness:
  "greedy [(0, 0, Val (1 / 10)), (0, 1, Val (1 / 20)), (1, 1, Val (1 / 20)), (1, 0, Val (3 / 20))]
     = Inr [(0, 1, Val (1 / 20)), (1, 0, Val (3 / 20))]
   \<and> greedy_spec
       [(0, 0, Val (1 / 10)), (0, 1, Val (1 / 20)), (1, 1, Val (1 / 20)), (1, 0, Val (3 / 20))]
     = [(0, 1, Val (1 / 20)), (1, 0, Val (3 / 20))]"
proof -
  let ?E = "[(0, 0, Val (1 / 10)), (0, 1, Val (1 / 20)), (1, 1, Val (1 / 20)),
             (1, 0, Val (3 / 20))] :: cand list"
  have h: "\<forall>c \<in> set ?E. cost c \<noteq> NaN" by (simp add: cost_def)
  have run: "greedy ?E = Inr [(0, 1, Val (1 / 20)), (1, 0, Val (3 / 20))]"
    by (simp add: greedy_def cost_def)
  with greedy_refines_spec [OF h] show ?thesis by simp
qed

section \<open>The bounded history of a track\<close>

lemma Track_update_raises:
  assumes "Track_update t z trk = (Inl err, trk')"
  shows "trk' = trk\<lparr>trk_t := t\<rparr>"
  using assms by (auto simp: Track_update_def Let_def split: sum.splits prod.splits)

lemma Track_update_returns:
  assumes "Track_update t z trk = (Inr u, trk')"
  shows "trk_hist trk' = deque_append (trk_hist trk) (t, z, trk_x trk', trk_P trk')"
    and "trk_t trk' = t" and "trk_l trk' = trk_l trk" and "trk_kalman trk' = trk_kalman trk"
  using assms by (auto simp: Track_update_def Let_def split: sum.splits prod.splits)

lemma Track_init_hist:
  "trk_hist (Track_init kal len l t z) =
     deque_init [(t, z, z @ zeros1 (k_ndim kal), k_P0 kal)] len"
  by (simp add: Track_init_def KalmanTracker_start_def Let_def)

lemma deque_append_length:
  assumes "length (items d) \<le> maxlen d"
  shows "length (items (deque_append d x)) = min (Suc (length (items d))) (maxlen d)"
    and "maxlen (deque_append d x) = maxlen d"
  using assms by (auto simp: deque_append_def)

lemma deque_append_items:
  assumes "length (items d) \<le> maxlen d"
  shows "items (deque_append d x) =
           (if length (items d) < maxlen d then items d @ [x] else tl (items d @ [x]))"
proof (cases "length (items d) < maxlen d")
  case True
  then show ?thesis by (simp add: deque_append_def)
next
  case False
  with assms have "length (items d) + 1 - maxlen d = Suc 0" by simp
  moreover have "drop (Suc 0) (items d @ [x]) = tl (items d @ [x])"
    by (simp only: drop_Suc drop_0)
  ultimately have "drop (length (items d) + 1 - maxlen d) (items d @ [x]) = tl (items d @ [x])"
    by (simp only:)
  then show ?thesis using False by (simp add: deque_append_def)
qed

lemma run_updates_hist:
  assumes "run_updates calls trk = (k, trk')"
    and "length (items (trk_hist trk)) \<le> maxlen (trk_hist trk)"
  shows "maxlen (trk_hist trk') = maxlen (trk_hist trk)
         \<and> length (items (trk_hist trk')) =
             min (length (items (trk_hist trk)) + k) (maxlen (trk_hist trk))"
  using assms
proof (induction calls arbitrary: trk k)
  case Nil
  then show ?case by simp
next
  case (Cons call calls)
  obtain t z where call: "call = (t, z)" by (cases call)
  obtain res trk1 where step: "Track_update t z trk = (res, trk1)"
    by (cases "Track_update t z trk")
  show ?case
  proof (cases res)
    case (Inl err)
    then have same: "trk_hist trk1 = trk_hist trk"
      using Track_update_raises step by fastforce
    have "run_updates calls trk1 = (k, trk')"
      using Cons.prems(1) call step Inl by simp
    then show ?thesis using Cons.IH [of trk1 k] Cons.prems(2) same by simp
  next
    case (Inr u)
    then have h: "trk_hist trk1 = deque_append (trk_hist trk) (t, z, trk_x trk1, trk_P trk1)"
      using Track_update_returns(1) step by fastforce
    obtain k1 where rest: "run_updates calls trk1 = (k1, trk')" and k: "k = Suc k1"
      using Cons.prems(1) call step Inr by (auto split: prod.splits)
    have len1: "length (items (trk_hist trk1)) =
                  min (Suc (length (items (trk_hist trk)))) (maxlen (trk_hist trk))"
      and max1: "maxlen (trk_hist trk1) = maxlen (trk_hist trk)"
      unfolding h using deque_append_length [OF Cons.prems(2)] by blast+
    have "length (items (trk_hist trk1)) \<le> maxlen (trk_hist trk1)"
      using len1 max1 by simp
    from Cons.IH [OF rest this] show ?thesis using len1 max1 k by auto
  qed
qed

lemma Track_init_deque:
  "maxlen (trk_hist (Track_init kal len l t z)) = len"
  "length (items (trk_hist (Track_init kal len l t z))) = min 1 len"
  by (auto simp: Track_init_hist deque_init_def)

text \<open>
  Claim C6. After any sequence of update calls on a track, the history holds at most
  as many samples as its capacity; a further update that returns appends its sample
  \<open>(t, z, x, P)\<close> at the end, after dropping the oldest sample when the history is full.
\<close>

theorem history_bounded_fifo:
  assumes "run_updates calls (Track_init kal len l t0 z0) = (k, trk)"
  shows "length (items (trk_hist trk)) \<le> len
         \<and> (\<forall>t z u trk'. Track_update t z trk = (Inr u, trk') \<longrightarrow>
               length (items (trk_hist trk')) \<le> len
               \<and> items (trk_hist trk') =
                   (if length (items (trk_hist trk)) < len
                    then items (trk_hist trk) @ [(t, z, trk_x trk', trk_P trk')]
                    else tl (items (trk_hist trk) @ [(t, z, trk_x trk', trk_P trk')])))"
proof -
  let ?trk0 = "Track_init kal len l t0 z0"
  have ok0: "length (items (trk_hist ?trk0)) \<le> maxlen (trk_hist ?trk0)"
    by (simp add: Track_init_deque)
  from run_updates_hist [OF assms ok0]
  have mx: "maxlen (trk_hist trk) = len" and le: "length (items (trk_hist trk)) \<le> len"
    by (simp_all add: Track_init_deque)
  have "length (items (trk_hist trk')) \<le> len
        \<and> items (trk_hist trk') =
             (if length (items (trk_hist trk)) < len
              then items (trk_hist trk) @ [(t, z, trk_x trk', trk_P trk')]
              else tl (items (trk_hist trk) @ [(t, z, trk_x trk', trk_P trk')]))"
    if step: "Track_update t z trk = (Inr u, trk')" for t z u trk'
  proof -
    have h: "trk_hist trk' = deque_append (trk_hist trk) (t, z, trk_x trk', trk_P trk')"
      using step by (rule Track_update_returns(1))
    have ok: "length (items (trk_hist trk)) \<le> maxlen (trk_hist trk)"
      using le mx by simp
    show ?thesis
      unfolding h using deque_append_items [OF ok] deque_append_length(1) [OF ok] mx
      by simp
  qed
  with le show ?thesis by blast
qed

lemma run_updates_hd:
  assumes "run_updates calls trk = (k, trk')"
    and "items (trk_hist trk) \<noteq> []"
    and "length (items (trk_hist trk)) + k \<le> maxlen (trk_hist trk)"
  shows "hd (items (trk_hist trk')) = hd (items (trk_hist trk))"
  using assms
proof (induction calls arbitrary: trk k)
  case Nil
  then show ?case by simp
next
  case (Cons call calls)
  obtain t z where call: "call = (t, z)" by (cases call)
  obtain res trk1 where step: "Track_update t z trk = (res, trk1)"
    by (cases "Track_update t z trk")
  show ?case
  proof (cases res)
    case (Inl err)
    then have same: "trk_hist trk1 = trk_hist trk"
      using Track_update_raises step by fastforce
    have "run_updates calls trk1 = (k, trk')"
      using Cons.prems(1) call step Inl by simp
    then show ?thesis using Cons.IH [of trk1 k] Cons.prems(2,3) same by simp
  next
    case (Inr u)
    then have h: "trk_hist trk1 = deque_append (trk_hist trk) (t, z, trk_x trk1, trk_P trk1)"
      using Track_update_returns(1) step by fastforce
    obtain k1 where rest: "run_updates calls trk1 = (k1, trk')" and k: "k = Suc k1"
      using Cons.prems(1) call step Inr by (auto split: prod.splits)
    have ok: "length (items (trk_hist trk)) \<le> maxlen (trk_hist trk)"
      and room: "length (items (trk_hist trk)) < maxlen (trk_hist trk)"
      using Cons.prems(3) k by simp_all
    have it1: "items (trk_hist trk1) = items (trk_hist trk) @ [(t, z, trk_x trk1, trk_P trk1)]"
      unfolding h using deque_append_items [OF ok] room by simp
    have max1: "maxlen (trk_hist trk1) = maxlen (trk_hist trk)"
      unfolding h using deque_append_length(2) [OF ok] by simp
    have "hd (items (trk_hist trk')) = hd (items (trk_hist trk1))"
      using Cons.IH [OF rest] it1 max1 Cons.prems(3) k by simp
    then show ?thesis using it1 Cons.prems(2) by simp
  qed
qed

subsection \<open>Concrete runs of a one-dimensional filter with unit noise\<close>

lemma demo_update1: "Track_update 1 [1] demo_track = (Inr (), demo_track1)"
  by code_simp

lemma demo_update2: "Track_update 2 [2] demo_track1 = (Inr (), demo_track2)"
  by code_simp

theorem history_bounded_fifo_witness:
  "run_updates [(1, [1])] demo_track = (1, demo_track1)
   \<and> Track_update 2 [2] demo_track1 = (Inr (), demo_track2)
   \<and> length (items (trk_hist demo_track1)) \<le> 2
   \<and> items (trk_hist demo_track2) =
       tl (items (trk_hist demo_track1) @ [(2, [2], trk_x demo_track2, trk_P demo_track2)])"
proof -
  have run: "run_updates [(1, [1])] (Track_init demo_kalman 2 () 0 [0]) = (1, demo_track1)"
    using demo_update1 by (simp add: demo_track_def)
  have full: "\<not> length (items (trk_hist demo_track1)) < 2"
    by (simp add: demo_track1_def)
  from history_bounded_fifo [OF run] demo_update2 full
  have "length (items (trk_hist demo_track1)) \<le> 2
        \<and> items (trk_hist demo_track2) =
            tl (items (trk_hist demo_track1) @ [(2, [2], trk_x demo_track2, trk_P demo_track2)])"
    by presburger
  then show ?thesis using run demo_update2 by (simp add: demo_track_def)
qed

text \<open>
  Claim C10, as the code has it. Construction puts the sample (creation time, initial
  measurement, started state, \<open>P0\<close>) into the history; after \<open>k\<close> updates that returned,
  the history holds \<open>min (k + 1) capacity\<close> samples. With a capacity of at least one the
  history is never empty, and the initial sample is its first row until the capacity
  is used up.
\<close>

theorem history_holds_initial_sample:
  assumes "run_updates calls (Track_init kal len l t0 z0) = (k, trk)"
  shows "length (items (trk_hist trk)) = min (k + 1) len
         \<and> (1 \<le> len \<longrightarrow>
              items (trk_hist (Track_init kal len l t0 z0)) =
                [(t0, z0, z0 @ zeros1 (k_ndim kal), k_P0 kal)]
              \<and> items (trk_hist trk) \<noteq> []
              \<and> (k < len \<longrightarrow>
                   hd (items (trk_hist trk)) = (t0, z0, z0 @ zeros1 (k_ndim kal), k_P0 kal)))"
proof -
  let ?trk0 = "Track_init kal len l t0 z0"
  let ?s0 = "(t0, z0, z0 @ zeros1 (k_ndim kal), k_P0 kal)"
  have ok0: "length (items (trk_hist ?trk0)) \<le> maxlen (trk_hist ?trk0)"
    by (simp add: Track_init_deque)
  from run_updates_hist [OF assms ok0]
  have len: "length (items (trk_hist trk)) = min (k + 1) len"
    by (simp add: Track_init_deque min_def)
  have pos: "items (trk_hist ?trk0) = [?s0] \<and> items (trk_hist trk) \<noteq> []
             \<and> (k < len \<longrightarrow> hd (items (trk_hist trk)) = ?s0)" if "1 \<le> len"
  proof -
    have i0: "items (trk_hist ?trk0) = [?s0]"
      using that by (simp add: Track_init_hist deque_init_def)
    have ne: "items (trk_hist trk) \<noteq> []"
      using len that by (cases "items (trk_hist trk)") simp_all
    have "hd (items (trk_hist trk)) = ?s0" if "k < len"
      using run_updates_hd [OF assms] i0 that by (simp add: Track_init_deque)
    with i0 ne show ?thesis by blast
  qed
  with len show ?thesis by blast
qed

theorem history_holds_initial_sample_witness:
  "run_updates [(1, [1])] demo_track = (1, demo_track1)
   \<and> length (items (trk_hist demo_track1)) = 2
   \<and> items (trk_hist demo_track) = [(0, [0], [0, 0], [[1, 0], [0, 1]])]
   \<and> hd (items (trk_hist demo_track1)) = (0, [0], [0, 0], [[1, 0], [0, 1]])"
proof -
  have run: "run_updates [(1, [1])] (Track_init demo_kalman 2 () 0 [0]) = (1, demo_track1)"
    using demo_update1 by (simp add: demo_track_def)
  have P0: "k_P0 demo_kalman = [[1, 0], [0, 1]]" "k_ndim demo_kalman = 1"
    by code_simp+
  from history_holds_initial_sample [OF run] P0
  show ?thesis using run by (simp add: demo_track_def zeros1_def)
qed

text \<open>With a capacity of zero the deque keeps nothing: the history of a new track is
  empty.\<close>

theorem history_capacity_zero_counterexample:
  "items (trk_hist (Track_init demo_kalman 0 () 0 [0])) = []"
  by (simp add: Track_init_hist deque_init_def)

section \<open>The registry invariant\<close>

lemma reg_okI:
  "distinct (map fst (tracks reg)) \<Longrightarrow> (\<And>i. i \<in> fst ` set (tracks reg) \<Longrightarrow> i < nextid reg)
     \<Longrightarrow> reg_ok reg"
  by (auto simp: reg_ok_def list_all_iff)

lemma reg_okD:
  assumes "reg_ok reg"
  shows "distinct (map fst (tracks reg))" and "i \<in> fst ` set (tracks reg) \<Longrightarrow> i < nextid reg"
  using assms by (auto simp: reg_ok_def list_all_iff)

subsection \<open>Dictionary assignment\<close>

lemma update_fresh: "k \<notin> fst ` set al \<Longrightarrow> AList.update k v al = al @ [(k, v)]"
  by (induction al) auto

lemma update_present_keys:
  "k \<in> fst ` set al \<Longrightarrow> map fst (AList.update k v al) = map fst al"
  by (induction al) auto


lemma map_of_update_other: "k' \<noteq> k \<Longrightarrow> map_of (AList.update k v al) k' = map_of al k'"
  by (simp add: AList.update_conv')

lemma map_of_update_same: "map_of (AList.update k v al) k = Some v"
  by (simp add: AList.update_conv')

lemma map_of_keys: "map_of al k = Some v \<Longrightarrow> k \<in> fst ` set al"
  by (metis domI dom_map_of_conv_image_fst)

subsection \<open>\<^verbatim>\<open>add\<close>\<close>

lemma BoxTracker_add_eq:
  "BoxTracker_add l t z reg =
     (nextid reg,
      reg\<lparr>nextid := Suc (nextid reg),
          tracks := AList.update (nextid reg) (Track_init (kalman reg) (length' reg) l t z)
                      (tracks reg)\<rparr>)"
  by (simp add: BoxTracker_add_def Let_def)

lemma Track_init_fields:
  "trk_t (Track_init kal len l t z) = t" "trk_l (Track_init kal len l t z) = l"
  "trk_kalman (Track_init kal len l t z) = kal"
  by (simp_all add: Track_init_def KalmanTracker_start_def Let_def)

lemma BoxTracker_add_ok:
  assumes "reg_ok reg" and "BoxTracker_add l t z reg = (i, reg')"
  shows "i = nextid reg" and "nextid reg' = Suc (nextid reg)" and "reg_ok reg'"
    and "tracks reg' = tracks reg @ [(i, Track_init (kalman reg) (length' reg) l t z)]"
    and "i \<notin> fst ` set (tracks reg)"
proof -
  have fresh: "nextid reg \<notin> fst ` set (tracks reg)"
    using reg_okD(2) [OF assms(1), of "nextid reg"] by blast
  show i: "i = nextid reg" and n: "nextid reg' = Suc (nextid reg)"
    using assms(2) by (auto simp: BoxTracker_add_eq)
  show trks: "tracks reg' = tracks reg @ [(i, Track_init (kalman reg) (length' reg) l t z)]"
    using assms(2) update_fresh [OF fresh] by (auto simp: BoxTracker_add_eq)
  show "i \<notin> fst ` set (tracks reg)" using fresh i by simp
  show "reg_ok reg'"
  proof (rule reg_okI)
    show "distinct (map fst (tracks reg'))"
      using reg_okD(1) [OF assms(1)] fresh trks i by simp
    fix j assume "j \<in> fst ` set (tracks reg')"
    then have "j = i \<or> j \<in> fst ` set (tracks reg)" using trks by auto
    then show "j < nextid reg'"
    proof
      assume "j = i" then show ?thesis using i n by simp
    next
      assume "j \<in> fst ` set (tracks reg)"
      then have "j < nextid reg" by (rule reg_okD(2) [OF assms(1)])
      then show ?thesis using n by simp
    qed
  qed
qed

subsection \<open>\<^verbatim>\<open>pop\<close>\<close>


subsection \<open>Committing the matches\<close>

lemma Track_update_stamp:
  assumes "Track_update t z trk = (r, trk')"
  shows "trk_t trk' = t"
  using assms by (auto simp: Track_update_def Let_def split: sum.splits prod.splits)

lemma commit_step:
  assumes "commit t boxes ((k, j, e) # final) trks mapper = (r, trks')"
  obtains "\<not> k < length boxes" and "r = Inl IndexError" and "trks' = trks"
  | "k < length boxes" and "map_of trks j = None" and "r = Inl KeyError" and "trks' = trks"
  | trk trk1 err where "k < length boxes" and "map_of trks j = Some trk"
      and "Track_update t (snd (boxes ! k)) trk = (Inl err, trk1)"
      and "r = Inl err" and "trks' = AList.update j trk1 trks"
  | trk trk1 u where "k < length boxes" and "map_of trks j = Some trk"
      and "Track_update t (snd (boxes ! k)) trk = (Inr u, trk1)"
      and "commit t boxes final (AList.update j trk1 trks) (mapper(k \<mapsto> j)) = (r, trks')"
proof (cases "k < length boxes")
  case False
  then have "r = Inl IndexError" "trks' = trks" using assms by simp_all
  with False show ?thesis by (rule that(1))
next
  case inr: True
  show ?thesis
  proof (cases "map_of trks j")
    case None
    then have "r = Inl KeyError" "trks' = trks" using assms inr by simp_all
    with inr None show ?thesis by (rule that(2))
  next
    case (Some trk)
    obtain res trk1 where step: "Track_update t (snd (boxes ! k)) trk = (res, trk1)"
      by (cases "Track_update t (snd (boxes ! k)) trk")
    show ?thesis
    proof (cases res)
      case (Inl err)
      then have s: "Track_update t (snd (boxes ! k)) trk = (Inl err, trk1)"
        using step by simp
      then have "r = Inl err" "trks' = AList.update j trk1 trks"
        using assms inr Some by simp_all
      with inr Some s show ?thesis by (rule that(3))
    next
      case (Inr u)
      then have s: "Track_update t (snd (boxes ! k)) trk = (Inr u, trk1)"
        using step by simp
      then have "commit t boxes final (AList.update j trk1 trks) (mapper(k \<mapsto> j)) = (r, trks')"
        using assms inr Some by simp
      with inr Some s show ?thesis by (rule that(4))
    qed
  qed
qed

lemma commit_keys:
  assumes "commit t boxes final trks mapper = (r, trks')"
  shows "map fst trks' = map fst trks"
  using assms
proof (induction final arbitrary: trks mapper)
  case Nil
  then show ?case by simp
next
  case (Cons c final)
  obtain k j e where c: "c = (k, j, e)" by (cases c)
  from Cons.prems [unfolded c] show ?case
  proof (cases rule: commit_step)
    case (3 trk trk1 err)
    then show ?thesis using update_present_keys [OF map_of_keys] by metis
  next
    case (4 trk trk1 u)
    have "map fst (AList.update j trk1 trks) = map fst trks"
      using 4(2) by (intro update_present_keys map_of_keys)
    then show ?thesis using Cons.IH [OF 4(4)] by simp
  qed simp_all
qed


lemma stamped_update_same: "trk_t trk = t \<Longrightarrow> stamped t (AList.update j trk trks) j"
  by (simp add: stamped_def AList.update_conv')

lemma stamped_update_keep:
  "trk_t trk = t \<Longrightarrow> stamped t trks i \<Longrightarrow> stamped t (AList.update j trk trks) i"
  by (cases "i = j") (auto simp: stamped_def AList.update_conv')

lemma stamped_key: "stamped t trks i \<Longrightarrow> i \<in> fst ` set trks"
  by (auto simp: stamped_def split: option.splits dest: map_of_keys)

lemma commit_mapper:
  assumes "commit t boxes final trks mapper = (Inr mapper', trks')"
    and "\<forall>k j. mapper k = Some j \<longrightarrow> stamped t trks j"
    and "mapper' k = Some j"
  shows "stamped t trks' j \<and> (mapper k = Some j \<or> (\<exists>e. (k, j, e) \<in> set final))"
  using assms
proof (induction final arbitrary: trks mapper)
  case Nil
  then show ?case by simp
next
  case (Cons c final)
  obtain k0 j0 e0 where c: "c = (k0, j0, e0)" by (cases c)
  from Cons.prems(1) [unfolded c] show ?case
  proof (cases rule: commit_step)
    case (4 trk trk1 u)
    have t1: "trk_t trk1 = t" using 4(3) by (rule Track_update_stamp)
    have "stamped t (AList.update j0 trk1 trks) j'" if "(mapper(k0 \<mapsto> j0)) k' = Some j'"
      for k' j'
    proof (cases "k' = k0")
      case True
      then show ?thesis using that t1 by (simp add: stamped_update_same)
    next
      case False
      then have "mapper k' = Some j'" using that by simp
      then show ?thesis using Cons.prems(2) t1 by (intro stamped_update_keep) auto
    qed
    then have pre: "\<forall>k' j'. (mapper(k0 \<mapsto> j0)) k' = Some j'
                      \<longrightarrow> stamped t (AList.update j0 trk1 trks) j'"
      by blast
    from Cons.IH [OF 4(4) pre Cons.prems(3)]
    have st: "stamped t trks' j"
      and src: "(mapper(k0 \<mapsto> j0)) k = Some j \<or> (\<exists>e. (k, j, e) \<in> set final)"
      by blast+
    from src have "mapper k = Some j \<or> (\<exists>e. (k, j, e) \<in> set (c # final))"
      unfolding c by (cases "k = k0") auto
    with st show ?thesis by simp
  qed simp_all
qed

subsection \<open>What the greedy loop returns\<close>

lemma foldl_pick_mem: "foldl pick c cs \<in> set (c # cs)"
proof (induction cs arbitrary: c)
  case Nil
  then show ?case by simp
next
  case (Cons x xs)
  have "foldl pick (pick c x) xs \<in> set (pick c x # xs)" by (rule Cons.IH)
  moreover have "pick c x = c \<or> pick c x = x" by (simp add: pick_def)
  ultimately show ?case by auto
qed

lemma min_key_pick: "min_key (c # cs) = Some (foldl pick c cs)"
  by (simp add: pick_def [abs_def])

lemma min_key_mem: "min_key errs = Some c \<Longrightarrow> c \<in> set errs"
proof (cases errs)
  case Nil
  assume "min_key errs = Some c"
  then show ?thesis using Nil by simp
next
  case (Cons c0 cs)
  assume "min_key errs = Some c"
  then have "c = foldl pick c0 cs" using Cons by (simp only: min_key_pick option.inject)
  then show ?thesis using foldl_pick_mem [of c0 cs] Cons by simp
qed

lemma greedy_loop_distinct:
  assumes "greedy_loop n errs final = Inr res"
  shows "\<exists>new. res = final @ new \<and> set new \<subseteq> set errs
           \<and> distinct (map fst new) \<and> distinct (map (fst \<circ> snd) new)"
  using assms
proof (induction n arbitrary: errs final)
  case 0
  then show ?case by simp
next
  case (Suc n)
  from Suc.prems obtain c where m0: "min_key errs = Some c"
    by (cases "min_key errs") simp_all
  obtain k j e where c: "c = (k, j, e)" by (cases c)
  have mem: "(k, j, e) \<in> set errs" using min_key_mem m0 c by blast
  have d: "filter (\<lambda>(k1, j1, e1). k1 \<noteq> k \<and> j1 \<noteq> j) errs = discard k j errs"
    by (simp only: discard_def)
  show ?case
  proof (cases "discard k j errs = []")
    case True
    then have "res = final @ [(k, j, e)]" using Suc.prems m0 c d by simp
    then show ?thesis using mem by simp
  next
    case False
    then have "greedy_loop n (discard k j errs) (final @ [(k, j, e)]) = Inr res"
      using Suc.prems m0 c d by simp
    from Suc.IH [OF this] obtain new where new: "res = (final @ [(k, j, e)]) @ new"
      and sub: "set new \<subseteq> set (discard k j errs)"
      and d1: "distinct (map fst new)" and d2: "distinct (map (fst \<circ> snd) new)"
      by blast
    have away: "k \<notin> fst ` set new" "j \<notin> (fst \<circ> snd) ` set new"
      using sub by (auto simp: discard_def)
    have "res = final @ ((k, j, e) # new)" using new by simp
    moreover have "set ((k, j, e) # new) \<subseteq> set errs"
      using sub mem by (auto simp: discard_def)
    moreover have "distinct (map fst ((k, j, e) # new))" using d1 away(1) by simp
    moreover have "distinct (map (fst \<circ> snd) ((k, j, e) # new))" using d2 away(2) by simp
    ultimately show ?thesis by blast
  qed
qed

lemma greedy_distinct:
  assumes "greedy errs = Inr final"
  shows "set final \<subseteq> set errs" and "distinct (map fst final)"
    and "distinct (map (fst \<circ> snd) final)"
  using greedy_loop_distinct [OF assms [unfolded greedy_def]] by auto

subsection \<open>Creating tracks for the unmatched detections\<close>

lemma create_props:
  assumes "reg_ok reg" and "distinct (map fst enum)"
    and "\<forall>k \<in> fst ` set enum. \<forall>j. mapper k = Some j \<longrightarrow> j < nextid reg"
    and "create t enum mapper reg = (match, reg')"
  shows "nextid reg \<le> nextid reg' \<and> reg_ok reg'
         \<and> (\<exists>new. tracks reg' = tracks reg @ new \<and> map fst new = [nextid reg..<nextid reg']
                \<and> (\<forall>p \<in> set new. trk_t (snd p) = t))
         \<and> filter (\<lambda>i. nextid reg \<le> i) match = [nextid reg..<nextid reg']
         \<and> set match \<subseteq> {j. \<exists>k \<in> fst ` set enum. mapper k = Some j}
                          \<union> {nextid reg..<nextid reg'}
         \<and> timeout reg' = timeout reg \<and> length match = length enum"
  using assms
proof (induction enum arbitrary: mapper reg match)
  case Nil
  then show ?case by simp
next
  case (Cons d rest)
  obtain k l c where d: "d = (k, l, c)" by (cases d)
  have drest: "distinct (map fst rest)" and knot: "k \<notin> fst ` set rest"
    using Cons.prems(2) d by auto
  have kin: "k \<in> fst ` set (d # rest)" using d by simp
  have rin: "k' \<in> fst ` set (d # rest)" if "k' \<in> fst ` set rest" for k'
    using that by auto
  have vals0: "j < nextid reg" if "mapper k' = Some j" "k' \<in> fst ` set (d # rest)" for k' j
    using Cons.prems(3) that by blast
  show ?case
  proof (cases "mapper k")
    case (Some j)
    obtain m where rec: "create t rest mapper reg = (m, reg')" and match: "match = j # m"
      using Cons.prems(4) d Some by (auto split: prod.splits)
    have vals: "\<forall>k \<in> fst ` set rest. \<forall>j. mapper k = Some j \<longrightarrow> j < nextid reg"
      using vals0 rin by blast
    have jlt: "j < nextid reg" using vals0 [OF Some kin] .
    from Cons.IH [OF Cons.prems(1) drest vals rec]
    obtain new where le: "nextid reg \<le> nextid reg'" and ok: "reg_ok reg'"
      and trks: "tracks reg' = tracks reg @ new \<and> map fst new = [nextid reg..<nextid reg']
                   \<and> (\<forall>p \<in> set new. trk_t (snd p) = t)"
      and flt: "filter (\<lambda>i. nextid reg \<le> i) m = [nextid reg..<nextid reg']"
      and sub: "set m \<subseteq> {j. \<exists>k' \<in> fst ` set rest. mapper k' = Some j}
                         \<union> {nextid reg..<nextid reg'}"
      and tmo: "timeout reg' = timeout reg" and len: "length m = length rest"
      by blast
    have c4: "filter (\<lambda>i. nextid reg \<le> i) match = [nextid reg..<nextid reg']"
      unfolding match using flt jlt by simp
    have "j \<in> {j. \<exists>k \<in> fst ` set (d # rest). mapper k = Some j}" using Some kin by blast
    moreover have "{j. \<exists>k' \<in> fst ` set rest. mapper k' = Some j}
                     \<subseteq> {j. \<exists>k \<in> fst ` set (d # rest). mapper k = Some j}"
      using rin by blast
    ultimately have c5: "set match \<subseteq> {j. \<exists>k \<in> fst ` set (d # rest). mapper k = Some j}
                          \<union> {nextid reg..<nextid reg'}"
      unfolding match using sub by auto
    have c7: "length match = length (d # rest)" unfolding match using len by simp
    show ?thesis using le ok trks c4 c5 tmo c7 by blast
  next
    case None
    obtain i reg1 where add: "BoxTracker_add l t c reg = (i, reg1)"
      by (cases "BoxTracker_add l t c reg")
    obtain m where rec: "create t rest (mapper(k \<mapsto> i)) reg1 = (m, reg')"
      and match: "match = i # m"
      using Cons.prems(4) d None add by (auto split: prod.splits)
    note a = BoxTracker_add_ok [OF Cons.prems(1) add]
    have vals: "\<forall>k' \<in> fst ` set rest. \<forall>j. (mapper(k \<mapsto> i)) k' = Some j \<longrightarrow> j < nextid reg1"
    proof (intro ballI allI impI)
      fix k' j assume k': "k' \<in> fst ` set rest" and "(mapper(k \<mapsto> i)) k' = Some j"
      then have "mapper k' = Some j" using knot by (auto split: if_splits)
      then have "j < nextid reg" using vals0 rin [OF k'] by blast
      then show "j < nextid reg1" using a(2) by simp
    qed
    from Cons.IH [OF a(3) drest vals rec]
    obtain new where le: "nextid reg1 \<le> nextid reg'" and ok: "reg_ok reg'"
      and trks: "tracks reg' = tracks reg1 @ new"
      and newk: "map fst new = [nextid reg1..<nextid reg']"
      and newt: "\<forall>p \<in> set new. trk_t (snd p) = t"
      and flt: "filter (\<lambda>i. nextid reg1 \<le> i) m = [nextid reg1..<nextid reg']"
      and sub: "set m \<subseteq> {j. \<exists>k' \<in> fst ` set rest. (mapper(k \<mapsto> i)) k' = Some j}
                         \<union> {nextid reg1..<nextid reg'}"
      and tmo: "timeout reg' = timeout reg1" and len: "length m = length rest"
      by blast
    let ?trk = "Track_init (kalman reg) (length' reg) l t c"
    have upt: "[nextid reg..<nextid reg'] = nextid reg # [nextid reg1..<nextid reg']"
      using le a(2) by (simp add: upt_conv_Cons)
    have subm: "set m \<subseteq> {j. \<exists>k' \<in> fst ` set rest. mapper k' = Some j}
                         \<union> {nextid reg1..<nextid reg'}"
    proof
      fix x assume "x \<in> set m"
      then have "(\<exists>k' \<in> fst ` set rest. (mapper(k \<mapsto> i)) k' = Some x)
                 \<or> x \<in> {nextid reg1..<nextid reg'}" using sub by blast
      then show "x \<in> {j. \<exists>k' \<in> fst ` set rest. mapper k' = Some j}
                      \<union> {nextid reg1..<nextid reg'}"
        using knot by (auto split: if_splits)
    qed
    have old: "\<forall>x \<in> set m. (nextid reg \<le> x) = (nextid reg1 \<le> x)"
    proof
      fix x assume "x \<in> set m"
      then have "(\<exists>k' \<in> fst ` set rest. mapper k' = Some x) \<or> nextid reg1 \<le> x"
        using subm by auto
      then show "(nextid reg \<le> x) = (nextid reg1 \<le> x)"
      proof
        assume "\<exists>k' \<in> fst ` set rest. mapper k' = Some x"
        then have "x < nextid reg" using vals0 rin by blast
        then show ?thesis using a(2) by simp
      next
        assume "nextid reg1 \<le> x" then show ?thesis using a(2) by simp
      qed
    qed
    have flt': "filter (\<lambda>i. nextid reg \<le> i) m = [nextid reg1..<nextid reg']"
      using flt filter_cong [OF refl, of m "\<lambda>i. nextid reg \<le> i" "\<lambda>i. nextid reg1 \<le> i"] old
      by simp
    have c1: "nextid reg \<le> nextid reg'" using le a(2) by simp
    have c3: "\<exists>new'. tracks reg' = tracks reg @ new' \<and> map fst new' = [nextid reg..<nextid reg']
                \<and> (\<forall>p \<in> set new'. trk_t (snd p) = t)"
    proof (intro exI conjI)
      show "tracks reg' = tracks reg @ ((i, ?trk) # new)" using trks a(4) by simp
      show "map fst ((i, ?trk) # new) = [nextid reg..<nextid reg']"
        using newk upt a(1) by simp
      show "\<forall>p \<in> set ((i, ?trk) # new). trk_t (snd p) = t"
        using newt by (simp add: Track_init_fields)
    qed
    have c4: "filter (\<lambda>i. nextid reg \<le> i) match = [nextid reg..<nextid reg']"
      unfolding match using flt' upt a(1) by simp
    have "i \<in> {nextid reg..<nextid reg'}" using a(1,2) le by simp
    moreover have "{nextid reg1..<nextid reg'} \<subseteq> {nextid reg..<nextid reg'}"
      using a(2) by auto
    moreover have "{j. \<exists>k' \<in> fst ` set rest. mapper k' = Some j}
                     \<subseteq> {j. \<exists>k \<in> fst ` set (d # rest). mapper k = Some j}"
      using rin by blast
    ultimately have c5: "set match \<subseteq> {j. \<exists>k \<in> fst ` set (d # rest). mapper k = Some j}
                          \<union> {nextid reg..<nextid reg'}"
      unfolding match using subm by auto
    have c6: "timeout reg' = timeout reg"
      using tmo add by (auto simp: BoxTracker_add_eq)
    have c7: "length match = length (d # rest)" unfolding match using len by simp
    show ?thesis using c1 ok c3 c4 c5 c6 c7 by blast
  qed
qed

lemma create_distinct:
  assumes "reg_ok reg" and "distinct (map fst enum)"
    and "\<forall>k \<in> fst ` set enum. \<forall>j. mapper k = Some j \<longrightarrow> j < nextid reg"
    and "\<forall>k \<in> fst ` set enum. \<forall>k' \<in> fst ` set enum. \<forall>j.
           mapper k = Some j \<and> mapper k' = Some j \<longrightarrow> k = k'"
    and "create t enum mapper reg = (match, reg')"
  shows "distinct match"
  using assms
proof (induction enum arbitrary: mapper reg match)
  case Nil
  then show ?case by simp
next
  case (Cons d rest)
  obtain k l c where d: "d = (k, l, c)" by (cases d)
  have drest: "distinct (map fst rest)" and knot: "k \<notin> fst ` set rest"
    using Cons.prems(2) d by auto
  have kin: "k \<in> fst ` set (d # rest)" using d by simp
  have rin: "k' \<in> fst ` set (d # rest)" if "k' \<in> fst ` set rest" for k'
    using that by auto
  have vals0: "j < nextid reg" if "mapper k' = Some j" "k' \<in> fst ` set (d # rest)" for k' j
    using Cons.prems(3) that by blast
  have inj0: "k1 = k2" if "k1 \<in> fst ` set (d # rest)" "k2 \<in> fst ` set (d # rest)"
      "mapper k1 = Some j" "mapper k2 = Some j" for k1 k2 j
    using Cons.prems(4) that by blast
  show ?case
  proof (cases "mapper k")
    case (Some j)
    obtain m where rec: "create t rest mapper reg = (m, reg')" and match: "match = j # m"
      using Cons.prems(5) d Some by (auto split: prod.splits)
    have vals: "\<forall>k \<in> fst ` set rest. \<forall>j. mapper k = Some j \<longrightarrow> j < nextid reg"
      using Cons.prems(3) by simp
    have inj: "\<forall>k \<in> fst ` set rest. \<forall>k' \<in> fst ` set rest. \<forall>j.
                 mapper k = Some j \<and> mapper k' = Some j \<longrightarrow> k = k'"
    proof (intro ballI allI impI)
      fix k1 k2 j assume k1: "k1 \<in> fst ` set rest" and k2: "k2 \<in> fst ` set rest"
        and both: "mapper k1 = Some j \<and> mapper k2 = Some j"
      show "k1 = k2"
        using inj0 [OF rin [OF k1] rin [OF k2] conjunct1 [OF both] conjunct2 [OF both]] .
    qed
    have jlt: "j < nextid reg" using Cons.prems(3) Some d by simp
    have dm: "distinct m" using Cons.IH [OF Cons.prems(1) drest vals inj rec] .
    have sub: "set m \<subseteq> {j. \<exists>k \<in> fst ` set rest. mapper k = Some j}
                       \<union> {nextid reg..<nextid reg'}"
      using create_props [OF Cons.prems(1) drest vals rec] by (elim conjE)
    have "j \<notin> set m"
    proof
      assume "j \<in> set m"
      then have "j \<in> {j. \<exists>k' \<in> fst ` set rest. mapper k' = Some j}
                      \<union> {nextid reg..<nextid reg'}"
        using sub by (rule subsetD [rotated])
      then have "(\<exists>k' \<in> fst ` set rest. mapper k' = Some j) \<or> nextid reg \<le> j"
        by (simp only: Un_iff mem_Collect_eq atLeastLessThan_iff) blast
      then show False
      proof
        assume "\<exists>k' \<in> fst ` set rest. mapper k' = Some j"
        then obtain k' where k': "k' \<in> fst ` set rest" "mapper k' = Some j" by blast
        have "k = k'" using inj0 [OF kin rin [OF k'(1)] Some k'(2)] .
        then show False using knot k'(1) by simp
      next
        assume "nextid reg \<le> j" then show False using jlt by simp
      qed
    qed
    then show ?thesis unfolding match using dm by simp
  next
    case None
    obtain i reg1 where add: "BoxTracker_add l t c reg = (i, reg1)"
      by (cases "BoxTracker_add l t c reg")
    obtain m where rec: "create t rest (mapper(k \<mapsto> i)) reg1 = (m, reg')"
      and match: "match = i # m"
      using Cons.prems(5) d None add by (auto split: prod.splits)
    note a = BoxTracker_add_ok [OF Cons.prems(1) add]
    have same: "(mapper(k \<mapsto> i)) k' = mapper k'" if "k' \<in> fst ` set rest" for k'
      using that knot by auto
    have old: "\<forall>k' \<in> fst ` set rest. \<forall>j. (mapper(k \<mapsto> i)) k' = Some j \<longrightarrow> j < nextid reg"
    proof (intro ballI allI impI)
      fix k' j assume k': "k' \<in> fst ` set rest" and "(mapper(k \<mapsto> i)) k' = Some j"
      then have "mapper k' = Some j" using same by simp
      then show "j < nextid reg" using rin [OF k'] by (rule vals0)
    qed
    then have vals: "\<forall>k' \<in> fst ` set rest. \<forall>j. (mapper(k \<mapsto> i)) k' = Some j
                       \<longrightarrow> j < nextid reg1"
      using a(2) by (simp add: less_Suc_eq)
    have inj: "\<forall>k1 \<in> fst ` set rest. \<forall>k2 \<in> fst ` set rest. \<forall>j.
                 (mapper(k \<mapsto> i)) k1 = Some j \<and> (mapper(k \<mapsto> i)) k2 = Some j \<longrightarrow> k1 = k2"
    proof (intro ballI allI impI)
      fix k1 k2 j assume k1: "k1 \<in> fst ` set rest" and k2: "k2 \<in> fst ` set rest"
        and "(mapper(k \<mapsto> i)) k1 = Some j \<and> (mapper(k \<mapsto> i)) k2 = Some j"
      then have "mapper k1 = Some j" "mapper k2 = Some j" using same by simp_all
      then show "k1 = k2" by (rule inj0 [OF rin [OF k1] rin [OF k2]])
    qed
    have dm: "distinct m" using Cons.IH [OF a(3) drest vals inj rec] .
    have sub: "set m \<subseteq> {j. \<exists>k' \<in> fst ` set rest. (mapper(k \<mapsto> i)) k' = Some j}
                       \<union> {nextid reg1..<nextid reg'}"
      using create_props [OF a(3) drest vals rec] by (elim conjE)
    have "i \<notin> set m"
    proof
      assume "i \<in> set m"
      then have "i \<in> {j. \<exists>k' \<in> fst ` set rest. (mapper(k \<mapsto> i)) k' = Some j}
                      \<union> {nextid reg1..<nextid reg'}"
        using sub by (rule subsetD [rotated])
      then have "(\<exists>k' \<in> fst ` set rest. (mapper(k \<mapsto> i)) k' = Some i) \<or> nextid reg1 \<le> i"
        by (simp only: Un_iff mem_Collect_eq atLeastLessThan_iff) blast
      then show False
      proof
        assume "\<exists>k' \<in> fst ` set rest. (mapper(k \<mapsto> i)) k' = Some i"
        then have "i < nextid reg" using old by blast
        then show False using a(1) by simp
      next
        assume "nextid reg1 \<le> i" then show False using a(1,2) by simp
      qed
    qed
    then show ?thesis unfolding match using dm by simp
  qed
qed

subsection \<open>Eviction\<close>

lemma map_of_append_mid:
  "i \<notin> fst ` set kept \<Longrightarrow> map_of (kept @ (i, v) # xs) i = Some v"
  by (induction kept) auto

lemma delete_append_mid:
  "i \<notin> fst ` set kept \<Longrightarrow> i \<notin> fst ` set xs \<Longrightarrow>
   AList.delete i (kept @ (i, v) # xs) = kept @ xs"
  by (induction kept) (auto simp: AList.delete_id)

lemma pop_all_filter:
  assumes "distinct (map fst (kept @ xs))" and "tracks reg = kept @ xs"
    and "fst ` set acc \<inter> fst ` set xs = {}"
  shows "pop_all (map fst (filter P xs)) reg acc =
           (Inr (acc @ filter P xs), reg\<lparr>tracks := kept @ filter (\<lambda>p. \<not> P p) xs\<rparr>)"
  using assms
proof (induction xs arbitrary: kept reg acc)
  case Nil
  then show ?case by simp
next
  case (Cons p xs)
  obtain i trk where p: "p = (i, trk)" by (cases p)
  have ik: "i \<notin> fst ` set kept" and ix: "i \<notin> fst ` set xs"
    and dkx: "distinct (map fst (kept @ xs))"
    using Cons.prems(1) p by auto
  have idone: "i \<notin> fst ` set acc" and dx: "fst ` set acc \<inter> fst ` set xs = {}"
    using Cons.prems(3) p by auto
  show ?case
  proof (cases "P p")
    case True
    let ?reg1 = "reg\<lparr>tracks := kept @ xs\<rparr>"
    have pop: "BoxTracker_pop i reg = (Inr trk, ?reg1)"
      using Cons.prems(2) p map_of_append_mid [OF ik] delete_append_mid [OF ik ix]
      by (simp add: BoxTracker_pop_def)
    have upd: "AList.update i trk acc = acc @ [(i, trk)]"
      using idone by (rule update_fresh)
    have d1: "fst ` set (acc @ [(i, trk)]) \<inter> fst ` set xs = {}"
      using dx ix by auto
    have "pop_all (map fst (filter P xs)) ?reg1 (acc @ [(i, trk)]) =
            (Inr ((acc @ [(i, trk)]) @ filter P xs),
             ?reg1\<lparr>tracks := kept @ filter (\<lambda>p. \<not> P p) xs\<rparr>)"
      by (rule Cons.IH [OF dkx _ d1]) simp
    then show ?thesis using True p pop upd by simp
  next
    case False
    have d2: "distinct (map fst ((kept @ [p]) @ xs))" using Cons.prems(1) by simp
    have t2: "tracks reg = (kept @ [p]) @ xs" using Cons.prems(2) by simp
    from Cons.IH [OF d2 t2 dx] show ?thesis using False by simp
  qed
qed

lemma evict_filter:
  assumes "distinct (map fst (tracks reg))"
  shows "evict t reg =
           (Inr (filter (stale t (timeout reg)) (tracks reg)),
            reg\<lparr>tracks := filter (\<lambda>p. \<not> stale t (timeout reg) p) (tracks reg)\<rparr>)"
  unfolding evict_def Let_def
  using pop_all_filter [of "[]" "tracks reg" reg "[]" "stale t (timeout reg)"] assms
  by simp

subsection \<open>The matching and creation phases\<close>

lemma match_create_cases:
  assumes "match_create t boxes reg = (r, reg')"
  obtains err where
      "pairs (cutoff reg) (map (\<lambda>(i, trk). (i, Track_predict trk t)) (tracks reg))
         (enumerate 0 boxes) (tracks reg) = Inl err"
      and "r = Inl err" and "reg' = reg"
  | errs err where "greedy errs = Inl err" and "r = Inl err" and "reg' = reg"
  | errs final err trks where "greedy errs = Inr final"
      and "commit t boxes final (tracks reg) Map.empty = (Inl err, trks)"
      and "r = Inl err" and "reg' = reg\<lparr>tracks := trks\<rparr>"
  | errs final mapper trks match where "greedy errs = Inr final"
      and "commit t boxes final (tracks reg) Map.empty = (Inr mapper, trks)"
      and "create t (enumerate 0 boxes) mapper (reg\<lparr>tracks := trks\<rparr>) = (match, reg')"
      and "r = Inr match"
proof -
  let ?locs = "map (\<lambda>(i, trk). (i, Track_predict trk t)) (tracks reg)"
  let ?pairs = "pairs (cutoff reg) ?locs (enumerate 0 boxes) (tracks reg)"
  show ?thesis
  proof (cases ?pairs)
    case (Inl err)
    then have "r = Inl err" "reg' = reg"
      using assms by (simp_all add: match_create_def)
    with Inl show ?thesis by (rule that(1))
  next
    case errs: (Inr errs)
    show ?thesis
    proof (cases "greedy errs")
      case (Inl err)
      then have "r = Inl err" "reg' = reg"
        using assms errs by (simp_all add: match_create_def)
      with Inl show ?thesis by (rule that(2))
    next
      case final: (Inr final)
      obtain res trks where com: "commit t boxes final (tracks reg) Map.empty = (res, trks)"
        by (cases "commit t boxes final (tracks reg) Map.empty")
      show ?thesis
      proof (cases res)
        case (Inl err)
        then have c: "commit t boxes final (tracks reg) Map.empty = (Inl err, trks)"
          using com by simp
        then have "r = Inl err" "reg' = reg\<lparr>tracks := trks\<rparr>"
          using assms errs final by (simp_all add: match_create_def)
        with final c show ?thesis by (rule that(3))
      next
        case (Inr mapper)
        then have c: "commit t boxes final (tracks reg) Map.empty = (Inr mapper, trks)"
          using com by simp
        obtain match reg2 where
          cr: "create t (enumerate 0 boxes) mapper (reg\<lparr>tracks := trks\<rparr>) = (match, reg2)"
          by (cases "create t (enumerate 0 boxes) mapper (reg\<lparr>tracks := trks\<rparr>)")
        then have "r = Inr match" "reg' = reg2"
          using assms errs final c by (simp_all add: match_create_def)
        with final c cr show ?thesis using that(4) by blast
      qed
    qed
  qed
qed

lemma stamped_append_left: "stamped t xs i \<Longrightarrow> stamped t (xs @ ys) i"
  by (auto simp: stamped_def map_add_def split: option.splits)

lemma stamped_append_right:
  assumes "i \<notin> fst ` set xs" and "i \<in> fst ` set ys"
    and "\<forall>p \<in> set ys. trk_t (snd p) = t"
  shows "stamped t (xs @ ys) i"
proof -
  have none: "map_of xs i = None" using assms(1) by (simp add: map_of_eq_None_iff)
  from assms(2) obtain trk where "map_of ys i = Some trk"
    by (metis domD dom_map_of_conv_image_fst)
  moreover from this have "trk_t trk = t" using assms(3) map_of_SomeD by fastforce
  ultimately show ?thesis using none by (simp add: stamped_def map_add_def)
qed



lemma match_create_ok:
  assumes "reg_ok reg" and "match_create t boxes reg = (Inr match, mid)"
  shows "reg_ok mid" and "nextid reg \<le> nextid mid" and "distinct match"
    and "length match = length boxes"
    and "filter (\<lambda>i. i \<notin> fst ` set (tracks reg)) match = [nextid reg..<nextid mid]"
    and "\<forall>i \<in> set match. stamped t (tracks mid) i"
    and "timeout mid = timeout reg"
    and "set match \<subseteq> fst ` set (tracks reg) \<union> {nextid reg..<nextid mid}"
proof -
  from assms(2) obtain final mapper trks where
    gr: "\<exists>errs. greedy errs = Inr final"
    and com: "commit t boxes final (tracks reg) Map.empty = (Inr mapper, trks)"
    and cr: "create t (enumerate 0 boxes) mapper (reg\<lparr>tracks := trks\<rparr>) = (match, mid)"
    by (cases rule: match_create_cases) auto
  let ?reg2 = "reg\<lparr>tracks := trks\<rparr>"
  let ?enum = "enumerate 0 boxes"
  have keys: "map fst trks = map fst (tracks reg)" using com by (rule commit_keys)
  then have "set (map fst trks) = set (map fst (tracks reg))" by (rule arg_cong)
  then have kset: "fst ` set trks = fst ` set (tracks reg)" by (simp only: set_map)
  have ok2: "reg_ok ?reg2" using assms(1) keys by (simp add: reg_ok_def)
  have mp: "stamped t trks j \<and> (\<exists>e. (k, j, e) \<in> set final)" if "mapper k = Some j" for k j
    using commit_mapper [OF com _ that] by simp
  have jkey: "j \<in> fst ` set (tracks reg)" if "mapper k = Some j" for k j
    using mp [OF that] stamped_key kset by blast
  have vals: "\<forall>k \<in> fst ` set ?enum. \<forall>j. mapper k = Some j \<longrightarrow> j < nextid ?reg2"
  proof (intro ballI allI impI)
    fix k j assume "mapper k = Some j"
    then have "j \<in> fst ` set (tracks reg)" by (rule jkey)
    then have "j < nextid reg" by (rule reg_okD(2) [OF assms(1)])
    then show "j < nextid ?reg2" by simp
  qed
  have dj: "inj_on (fst \<circ> snd) (set final)"
    using gr greedy_distinct(3) by (auto simp: distinct_map)
  have inj: "\<forall>k \<in> fst ` set ?enum. \<forall>k' \<in> fst ` set ?enum. \<forall>j.
               mapper k = Some j \<and> mapper k' = Some j \<longrightarrow> k = k'"
  proof (intro ballI allI impI)
    fix k k' j assume "mapper k = Some j \<and> mapper k' = Some j"
    then obtain e e' where m1: "(k, j, e) \<in> set final" and m2: "(k', j, e') \<in> set final"
      using mp by blast
    have "(fst \<circ> snd) (k, j, e) = (fst \<circ> snd) (k', j, e')" by simp
    then have "(k, j, e) = (k', j, e')" using m1 m2 by (rule inj_onD [OF dj])
    then show "k = k'" by simp
  qed
  have de: "distinct (map fst ?enum)" by simp
  note cp = create_props [OF ok2 de vals cr]
  from cp have c1: "nextid ?reg2 \<le> nextid mid" by (elim conjE)
  from cp show "reg_ok mid" by (elim conjE)
  from cp have c3: "\<exists>new. tracks mid = tracks ?reg2 @ new
                      \<and> map fst new = [nextid ?reg2..<nextid mid]
                      \<and> (\<forall>p \<in> set new. trk_t (snd p) = t)" by (elim conjE)
  from cp have c4: "filter (\<lambda>i. nextid ?reg2 \<le> i) match = [nextid ?reg2..<nextid mid]"
    by (elim conjE)
  from cp have c5: "set match \<subseteq> {j. \<exists>k \<in> fst ` set ?enum. mapper k = Some j}
                          \<union> {nextid ?reg2..<nextid mid}" by (elim conjE)
  from cp have c6: "timeout mid = timeout ?reg2" by (elim conjE)
  from cp have c7: "length match = length ?enum" by (elim conjE)
  show le: "nextid reg \<le> nextid mid" using c1 by simp
  show "distinct match" using create_distinct [OF ok2 de vals inj cr] .
  show "length match = length boxes" using c7 by simp
  show "timeout mid = timeout reg" using c6 by simp
  have sub0: "set match \<subseteq> {j. \<exists>k \<in> fst ` set ?enum. mapper k = Some j}
                          \<union> {nextid reg..<nextid mid}"
    using c5 by simp
  show sub: "set match \<subseteq> fst ` set (tracks reg) \<union> {nextid reg..<nextid mid}"
  proof
    fix i assume "i \<in> set match"
    then have "i \<in> {j. \<exists>k \<in> fst ` set ?enum. mapper k = Some j} \<union> {nextid reg..<nextid mid}"
      using sub0 by (rule subsetD [rotated])
    then show "i \<in> fst ` set (tracks reg) \<union> {nextid reg..<nextid mid}"
      using jkey by blast
  qed
  have flt: "filter (\<lambda>i. nextid reg \<le> i) match = [nextid reg..<nextid mid]"
    using c4 by simp
  have "\<forall>i \<in> set match. (i \<notin> fst ` set (tracks reg)) = (nextid reg \<le> i)"
  proof
    fix i assume "i \<in> set match"
    then have "i \<in> fst ` set (tracks reg) \<or> nextid reg \<le> i" using sub by auto
    moreover have "i < nextid reg" if "i \<in> fst ` set (tracks reg)"
      using that by (rule reg_okD(2) [OF assms(1)])
    ultimately show "(i \<notin> fst ` set (tracks reg)) = (nextid reg \<le> i)" by fastforce
  qed
  then have "filter (\<lambda>i. i \<notin> fst ` set (tracks reg)) match = filter (\<lambda>i. nextid reg \<le> i) match"
    by (intro filter_cong refl) blast
  then show "filter (\<lambda>i. i \<notin> fst ` set (tracks reg)) match = [nextid reg..<nextid mid]"
    using flt by simp
  from c3 obtain new where tm: "tracks mid = trks @ new"
    and nk: "map fst new = [nextid reg..<nextid mid]"
    and nt: "\<forall>p \<in> set new. trk_t (snd p) = t"
    by auto
  have nkset: "fst ` set new = {nextid reg..<nextid mid}"
    using nk by (metis list.set_map set_upt)
  show "\<forall>i \<in> set match. stamped t (tracks mid) i"
  proof
    fix i assume "i \<in> set match"
    then have "(\<exists>k. mapper k = Some i) \<or> i \<in> {nextid reg..<nextid mid}"
      using sub0 by blast
    then show "stamped t (tracks mid) i"
    proof
      assume "\<exists>k. mapper k = Some i"
      then have "stamped t trks i" using mp by blast
      then show ?thesis unfolding tm by (rule stamped_append_left)
    next
      assume new: "i \<in> {nextid reg..<nextid mid}"
      have "i \<notin> fst ` set (tracks reg)"
        using reg_okD(2) [OF assms(1), of i] new by auto
      then have "i \<notin> fst ` set trks" using kset by simp
      then show ?thesis unfolding tm using new nkset nt by (intro stamped_append_right) auto
    qed
  qed
qed

subsection \<open>The whole frame update\<close>

lemma update_ok:
  assumes "reg_ok reg" and "BoxTracker_update t boxes reg = (Inr (match, dn), reg')"
  obtains mid where "match_create t boxes reg = (Inr match, mid)"
    and "dn = filter (stale t (timeout reg)) (tracks mid)"
    and "reg' = mid\<lparr>tracks := filter (\<lambda>p. \<not> stale t (timeout reg) p) (tracks mid)\<rparr>"
proof -
  obtain r mid where mc: "match_create t boxes reg = (r, mid)"
    by (cases "match_create t boxes reg")
  show ?thesis
  proof (cases r)
    case (Inl err)
    then show ?thesis using assms(2) mc by (simp add: BoxTracker_update_def)
  next
    case (Inr m)
    then have mc': "match_create t boxes reg = (Inr m, mid)" using mc by simp
    note ok = match_create_ok [OF assms(1) mc']
    have ev: "evict t mid =
                (Inr (filter (stale t (timeout reg)) (tracks mid)),
                 mid\<lparr>tracks := filter (\<lambda>p. \<not> stale t (timeout reg) p) (tracks mid)\<rparr>)"
      using evict_filter [OF reg_okD(1) [OF ok(1)], of t] ok(7) by simp
    have "m = match" "dn = filter (stale t (timeout reg)) (tracks mid)"
      "reg' = mid\<lparr>tracks := filter (\<lambda>p. \<not> stale t (timeout reg) p) (tracks mid)\<rparr>"
      using assms(2) mc' ev by (simp_all add: BoxTracker_update_def)
    then show ?thesis using mc' that by blast
  qed
qed

lemma map_of_filter_keep:
  "map_of xs i = Some v \<Longrightarrow> Q (i, v) \<Longrightarrow> map_of (filter Q xs) i = Some v"
  by (induction xs) (auto split: if_splits)




text \<open>
  Claim C4. In a frame update that returns, the evicted tracks are exactly the tracks
  that are stale (\<open>t > timestamp + timeout\<close>) in the registry as the matching and
  creation phases leave it, in dictionary order, and the registry keeps exactly the
  others. Every track matched or created in the frame carries the timestamp \<open>t\<close>;
  with a timeout that is not negative it is not evicted and stays registered.
\<close>

theorem update_evicts_stale:
  assumes "reg_ok reg" and "BoxTracker_update t boxes reg = (Inr (match, dn), reg')"
  shows "\<exists>mid. match_create t boxes reg = (Inr match, mid)
           \<and> dn = filter (stale t (timeout reg)) (tracks mid)
           \<and> tracks reg' = filter (\<lambda>p. \<not> stale t (timeout reg) p) (tracks mid)
           \<and> (\<forall>i \<in> set match. stamped t (tracks mid) i)
           \<and> (0 \<le> timeout reg \<longrightarrow>
                 (\<forall>i \<in> set match. i \<notin> fst ` set dn \<and> stamped t (tracks reg') i))"
proof -
  from assms obtain mid where mc: "match_create t boxes reg = (Inr match, mid)"
    and dn: "dn = filter (stale t (timeout reg)) (tracks mid)"
    and reg': "reg' = mid\<lparr>tracks := filter (\<lambda>p. \<not> stale t (timeout reg) p) (tracks mid)\<rparr>"
    by (rule update_ok)
  note ok = match_create_ok [OF assms(1) mc]
  have dist: "distinct (map fst (tracks mid))" using ok(1) by (rule reg_okD(1))
  have trks': "tracks reg' = filter (\<lambda>p. \<not> stale t (timeout reg) p) (tracks mid)"
    using reg' by simp
  have keep: "i \<notin> fst ` set dn \<and> stamped t (tracks reg') i"
    if tmo: "0 \<le> timeout reg" and i: "i \<in> set match" for i
  proof -
    from ok(6) i obtain trk where m: "map_of (tracks mid) i = Some trk" and tt: "trk_t trk = t"
      by (auto simp: stamped_def split: option.splits)
    have fresh: "\<not> stale t (timeout reg) (i, trk)" using tt tmo by (simp add: stale_def)
    have "trk' = trk" if "(i, trk') \<in> set (tracks mid)" for trk'
      using that m dist by simp
    then have "i \<notin> fst ` set dn" using fresh unfolding dn by auto
    moreover have "map_of (filter (\<lambda>p. \<not> stale t (timeout reg) p) (tracks mid)) i = Some trk"
      using m fresh by (rule map_of_filter_keep)
    then have "stamped t (tracks reg') i" using tt unfolding trks' by (simp add: stamped_def)
    ultimately show ?thesis by simp
  qed
  show ?thesis using mc dn trks' ok(6) keep by blast
qed

section \<open>Identifiers over the lifetime of a registry\<close>








section \<open>A failing linear solve\<close>



subsection \<open>Concrete frames of a registry with the default configuration\<close>

lemmas frame_defs = BoxTracker_update_def match_create_def evict_def stale_def BoxTracker_add_def
  BoxTracker_pop_def Track_predict_def KalmanTracker_predict_def greedy_def Let_def

lemma demo_reg_fields:
  "nextid demo_reg = 0" "tracks demo_reg = []" "timeout demo_reg = 2" "cutoff demo_reg = 1 / 5"
  "length' demo_reg = 250"
  by (simp_all add: demo_reg_def BoxTracker_init_def BoxTracker_reset_def)

lemma demo_track_fields:
  "trk_t car_track = 0" "trk_l car_track = ''car''"
  "trk_t bus_track = 4" "trk_l bus_track = ''bus''"
  by (simp_all add: car_track_def bus_track_def Track_init_fields)


lemma demo_frame2:
  "BoxTracker_update 4 [(''bus'', [20, 0, 30, 10])] demo_reg1 =
     (Inr ([1], [(0, car_track)]), demo_reg2)"
  by (simp add: frame_defs demo_reg_fields demo_reg1_def demo_reg2_def bus_track_def
      demo_track_fields Track_init_fields)



theorem update_evicts_stale_witness:
  "BoxTracker_update 4 [(''bus'', [20, 0, 30, 10])] demo_reg1 =
     (Inr ([1], [(0, car_track)]), demo_reg2)
   \<and> stale 4 (timeout demo_reg1) (0, car_track)
   \<and> tracks demo_reg2 = [(1, bus_track)]
   \<and> stamped 4 (tracks demo_reg2) 1
   \<and> 1 \<notin> fst ` set [(0 :: nat, car_track)]"
proof -
  have ok: "reg_ok demo_reg1"
    by (simp add: reg_ok_def demo_reg1_def)
  have tmo: "0 \<le> timeout demo_reg1" by (simp add: demo_reg1_def demo_reg_fields)
  from update_evicts_stale [OF ok demo_frame2] tmo
  have "stamped 4 (tracks demo_reg2) 1 \<and> 1 \<notin> fst ` set [(0 :: nat, car_track)]"
    by auto
  then show ?thesis
    using demo_frame2
    by (simp add: stale_def demo_reg1_def demo_reg2_def demo_reg_fields demo_track_fields)
qed


subsection \<open>Concrete frames of a filter without noise, where the solve is singular\<close>





section \<open>Entries of the array operations\<close>

lemma wf_mat_row: "wf_mat n m A \<Longrightarrow> i < n \<Longrightarrow> length (A ! i) = m"
  by (simp add: wf_mat_def list_all_length)

lemma wf_mat_length: "wf_mat n m A \<Longrightarrow> length A = n"
  by (simp add: wf_mat_def)

lemma wf_matI: "length A = n \<Longrightarrow> (\<And>i. i < n \<Longrightarrow> length (A ! i) = m) \<Longrightarrow> wf_mat n m A"
  by (simp add: wf_mat_def list_all_length)

lemma mat_eqI:
  assumes "wf_mat n m A" and "wf_mat n m B"
    and "\<And>i j. i < n \<Longrightarrow> j < m \<Longrightarrow> A ! i ! j = B ! i ! j"
  shows "A = B"
proof (rule nth_equalityI)
  show "length A = length B" using assms(1,2) by (simp add: wf_mat_def)
  fix i assume "i < length A"
  then have i: "i < n" using assms(1) by (simp add: wf_mat_def)
  show "A ! i = B ! i"
  proof (rule nth_equalityI)
    show "length (A ! i) = length (B ! i)"
      using wf_mat_row [OF assms(1) i] wf_mat_row [OF assms(2) i] by simp
    fix j assume "j < length (A ! i)"
    then have "j < m" using wf_mat_row [OF assms(1) i] by simp
    then show "A ! i ! j = B ! i ! j" using i by (rule assms(3) [rotated])
  qed
qed

lemma ncols_wf: "wf_mat n m A \<Longrightarrow> 0 < n \<Longrightarrow> ncols A = m"
  by (cases A) (auto simp: wf_mat_def ncols_def)

lemma dot_sum: "length u = length v \<Longrightarrow> dot u v = (\<Sum>k<length u. u ! k * v ! k)"
proof -
  assume l: "length u = length v"
  have "dot u v = (\<Sum>k<length (map2 (*) u v). map2 (*) u v ! k)"
    unfolding dot_def by (simp add: sum_list_sum_nth atLeast0LessThan)
  also have "\<dots> = (\<Sum>k<length u. u ! k * v ! k)"
    using l by (intro sum.cong) auto
  finally show ?thesis .
qed

lemma col_nth: "i < length A \<Longrightarrow> col A j ! i = A ! i ! j"
  by (simp add: col_def)

lemma length_col: "length (col A j) = length A"
  by (simp add: col_def)

lemma wf_mat_T:
  assumes "wf_mat n m A" and "0 < n"
  shows "wf_mat m n (mat_T A)"
  using assms by (intro wf_matI) (simp_all add: mat_T_def ncols_wf length_col wf_mat_length)

lemma mat_T_nth:
  assumes "wf_mat n m A" and "0 < n" and "i < n" and "j < m"
  shows "mat_T A ! j ! i = A ! i ! j"
  using assms by (simp add: mat_T_def ncols_wf col_nth wf_mat_length)

lemma wf_matmul:
  assumes "wf_mat n p A" and "wf_mat p m B" and "0 < p"
  shows "wf_mat n m (matmul A B)"
  using assms by (intro wf_matI) (simp_all add: matmul_def ncols_wf wf_mat_length)

lemma matmul_nth:
  assumes "wf_mat n p A" and "wf_mat p m B" and "0 < p" and "i < n" and "j < m"
  shows "matmul A B ! i ! j = (\<Sum>k<p. A ! i ! k * B ! k ! j)"
proof -
  have lA: "length A = n" and lB: "length B = p" using assms(1,2) by (simp_all add: wf_mat_def)
  have r: "length (A ! i) = p" using assms(1,4) by (rule wf_mat_row)
  have "matmul A B ! i ! j = dot (A ! i) (col B j)"
    using assms(2,3,4,5) lA by (simp add: matmul_def ncols_wf)
  also have "\<dots> = (\<Sum>k<p. A ! i ! k * col B j ! k)"
    using dot_sum [of "A ! i" "col B j"] r lB by (simp add: length_col)
  also have "\<dots> = (\<Sum>k<p. A ! i ! k * B ! k ! j)"
    using lB by (intro sum.cong) (simp_all add: col_nth)
  finally show ?thesis .
qed

lemma length_mat_vec: "length (mat_vec A v) = length A"
  by (simp add: mat_vec_def)

lemma mat_vec_nth:
  assumes "wf_mat n m A" and "length v = m" and "i < n"
  shows "mat_vec A v ! i = (\<Sum>k<m. A ! i ! k * v ! k)"
proof -
  have r: "length (A ! i) = m" using assms(1,3) by (rule wf_mat_row)
  have "mat_vec A v ! i = dot (A ! i) v"
    using assms(1,3) by (simp add: mat_vec_def wf_mat_length)
  then show ?thesis using dot_sum [of "A ! i" v] r assms(2) by simp
qed

lemma wf_madd:
  assumes "wf_mat n m A" and "wf_mat n m B"
  shows "wf_mat n m (madd A B)"
  using assms by (intro wf_matI) (simp_all add: madd_def vadd_def wf_mat_length wf_mat_row)

lemma madd_nth:
  assumes "wf_mat n m A" and "wf_mat n m B" and "i < n" and "j < m"
  shows "madd A B ! i ! j = A ! i ! j + B ! i ! j"
  using assms by (simp add: madd_def vadd_def wf_mat_length wf_mat_row)

lemma wf_msub:
  assumes "wf_mat n m A" and "wf_mat n m B"
  shows "wf_mat n m (msub A B)"
  using assms by (intro wf_matI) (simp_all add: msub_def vsub_def wf_mat_length wf_mat_row)

lemma msub_nth:
  assumes "wf_mat n m A" and "wf_mat n m B" and "i < n" and "j < m"
  shows "msub A B ! i ! j = A ! i ! j - B ! i ! j"
  using assms by (simp add: msub_def vsub_def wf_mat_length wf_mat_row)

lemma wf_mscale: "wf_mat n m A \<Longrightarrow> wf_mat n m (mscale c A)"
  by (intro wf_matI) (simp_all add: mscale_def vscale_def wf_mat_length wf_mat_row)

lemma mscale_nth:
  assumes "wf_mat n m A" and "i < n" and "j < m"
  shows "mscale c A ! i ! j = c * A ! i ! j"
  using assms by (simp add: mscale_def vscale_def wf_mat_length wf_mat_row)

lemma wf_eye: "wf_mat n n (eye n)"
  by (intro wf_matI) (simp_all add: eye_def)

lemma eye_nth: "i < n \<Longrightarrow> j < n \<Longrightarrow> eye n ! i ! j = (if i = j then 1 else 0)"
  by (simp add: eye_def)

lemma wf_zeros: "wf_mat n m (zeros n m)"
  by (intro wf_matI) (simp_all add: zeros_def)

lemma zeros_nth: "i < n \<Longrightarrow> j < m \<Longrightarrow> zeros n m ! i ! j = 0"
  by (simp add: zeros_def)

lemma wf_diag: "wf_mat (length v) (length v) (diag v)"
  by (intro wf_matI) (simp_all add: diag_def)

lemma diag_nth:
  "i < length v \<Longrightarrow> j < length v \<Longrightarrow> diag v ! i ! j = (if i = j then v ! i else 0)"
  by (simp add: diag_def)

section \<open>Matrix algebra\<close>

lemma matmul_assoc:
  assumes "wf_mat n p A" and "wf_mat p q B" and "wf_mat q m C" and "0 < p" and "0 < q"
  shows "matmul (matmul A B) C = matmul A (matmul B C)"
proof (rule mat_eqI [of n m])
  have AB: "wf_mat n q (matmul A B)" using assms(1,2,4) by (rule wf_matmul)
  have BC: "wf_mat p m (matmul B C)" using assms(2,3,5) by (rule wf_matmul)
  show "wf_mat n m (matmul (matmul A B) C)" using AB assms(3,5) by (rule wf_matmul)
  show "wf_mat n m (matmul A (matmul B C))" using assms(1) BC assms(4) by (rule wf_matmul)
  fix i j assume i: "i < n" and j: "j < m"
  have "matmul (matmul A B) C ! i ! j = (\<Sum>l<q. matmul A B ! i ! l * C ! l ! j)"
    using AB assms(3,5) i j by (rule matmul_nth)
  also have "\<dots> = (\<Sum>l<q. (\<Sum>k<p. A ! i ! k * B ! k ! l) * C ! l ! j)"
    by (intro sum.cong refl) (simp add: matmul_nth [OF assms(1,2,4) i])
  also have "\<dots> = (\<Sum>l<q. \<Sum>k<p. A ! i ! k * (B ! k ! l * C ! l ! j))"
    by (simp add: sum_distrib_right mult.assoc)
  also have "\<dots> = (\<Sum>k<p. \<Sum>l<q. A ! i ! k * (B ! k ! l * C ! l ! j))"
    by (rule sum.swap)
  also have "\<dots> = (\<Sum>k<p. A ! i ! k * (\<Sum>l<q. B ! k ! l * C ! l ! j))"
    by (simp add: sum_distrib_left)
  also have "\<dots> = (\<Sum>k<p. A ! i ! k * matmul B C ! k ! j)"
    by (intro sum.cong refl) (simp add: matmul_nth [OF assms(2,3,5) _ j])
  also have "\<dots> = matmul A (matmul B C) ! i ! j"
    using matmul_nth [OF assms(1) BC assms(4) i j] by simp
  finally show "matmul (matmul A B) C ! i ! j = matmul A (matmul B C) ! i ! j" .
qed

lemma mat_T_matmul:
  assumes "wf_mat n p A" and "wf_mat p m B" and "0 < n" and "0 < p" and "0 < m"
  shows "mat_T (matmul A B) = matmul (mat_T B) (mat_T A)"
proof (rule mat_eqI [of m n])
  have AB: "wf_mat n m (matmul A B)" using assms(1,2,4) by (rule wf_matmul)
  have TA: "wf_mat p n (mat_T A)" using assms(1,3) by (rule wf_mat_T)
  have TB: "wf_mat m p (mat_T B)" using assms(2,4) by (rule wf_mat_T)
  show "wf_mat m n (mat_T (matmul A B))" using AB assms(3) by (rule wf_mat_T)
  show "wf_mat m n (matmul (mat_T B) (mat_T A))" using TB TA assms(4) by (rule wf_matmul)
  fix j i assume j: "j < m" and i: "i < n"
  have "mat_T (matmul A B) ! j ! i = matmul A B ! i ! j"
    using AB assms(3) i j by (rule mat_T_nth)
  also have "\<dots> = (\<Sum>k<p. A ! i ! k * B ! k ! j)"
    using assms(1,2,4) i j by (rule matmul_nth)
  also have "\<dots> = (\<Sum>k<p. mat_T B ! j ! k * mat_T A ! k ! i)"
    by (intro sum.cong refl)
      (simp add: mat_T_nth [OF assms(1,3) i] mat_T_nth [OF assms(2,4) _ j] mult.commute)
  also have "\<dots> = matmul (mat_T B) (mat_T A) ! j ! i"
    using matmul_nth [OF TB TA assms(4) j i] by simp
  finally show "mat_T (matmul A B) ! j ! i = matmul (mat_T B) (mat_T A) ! j ! i" .
qed

lemma mat_T_T:
  assumes "wf_mat n m A" and "0 < n" and "0 < m"
  shows "mat_T (mat_T A) = A"
proof (rule mat_eqI [of n m])
  have TA: "wf_mat m n (mat_T A)" using assms(1,2) by (rule wf_mat_T)
  show "wf_mat n m (mat_T (mat_T A))" using TA assms(3) by (rule wf_mat_T)
  show "wf_mat n m A" by (rule assms(1))
  fix i j assume i: "i < n" and j: "j < m"
  show "mat_T (mat_T A) ! i ! j = A ! i ! j"
    using mat_T_nth [OF TA assms(3) j i] mat_T_nth [OF assms(1,2) i j] by simp
qed

lemma mat_T_madd:
  assumes "wf_mat n m A" and "wf_mat n m B" and "0 < n"
  shows "mat_T (madd A B) = madd (mat_T A) (mat_T B)"
proof (rule mat_eqI [of m n])
  have S: "wf_mat n m (madd A B)" using assms(1,2) by (rule wf_madd)
  have TA: "wf_mat m n (mat_T A)" using assms(1,3) by (rule wf_mat_T)
  have TB: "wf_mat m n (mat_T B)" using assms(2,3) by (rule wf_mat_T)
  show "wf_mat m n (mat_T (madd A B))" using S assms(3) by (rule wf_mat_T)
  show "wf_mat m n (madd (mat_T A) (mat_T B))" using TA TB by (rule wf_madd)
  fix j i assume j: "j < m" and i: "i < n"
  show "mat_T (madd A B) ! j ! i = madd (mat_T A) (mat_T B) ! j ! i"
    using mat_T_nth [OF S assms(3) i j] madd_nth [OF assms(1,2) i j]
      madd_nth [OF TA TB j i] mat_T_nth [OF assms(1,3) i j] mat_T_nth [OF assms(2,3) i j]
    by simp
qed

lemma mat_T_msub:
  assumes "wf_mat n m A" and "wf_mat n m B" and "0 < n"
  shows "mat_T (msub A B) = msub (mat_T A) (mat_T B)"
proof (rule mat_eqI [of m n])
  have S: "wf_mat n m (msub A B)" using assms(1,2) by (rule wf_msub)
  have TA: "wf_mat m n (mat_T A)" using assms(1,3) by (rule wf_mat_T)
  have TB: "wf_mat m n (mat_T B)" using assms(2,3) by (rule wf_mat_T)
  show "wf_mat m n (mat_T (msub A B))" using S assms(3) by (rule wf_mat_T)
  show "wf_mat m n (msub (mat_T A) (mat_T B))" using TA TB by (rule wf_msub)
  fix j i assume j: "j < m" and i: "i < n"
  show "mat_T (msub A B) ! j ! i = msub (mat_T A) (mat_T B) ! j ! i"
    using mat_T_nth [OF S assms(3) i j] msub_nth [OF assms(1,2) i j]
      msub_nth [OF TA TB j i] mat_T_nth [OF assms(1,3) i j] mat_T_nth [OF assms(2,3) i j]
    by simp
qed

lemma matmul_madd_left:
  assumes "wf_mat n p A" and "wf_mat n p B" and "wf_mat p m C" and "0 < p"
  shows "matmul (madd A B) C = madd (matmul A C) (matmul B C)"
proof (rule mat_eqI [of n m])
  have S: "wf_mat n p (madd A B)" using assms(1,2) by (rule wf_madd)
  have AC: "wf_mat n m (matmul A C)" using assms(1,3,4) by (rule wf_matmul)
  have BC: "wf_mat n m (matmul B C)" using assms(2,3,4) by (rule wf_matmul)
  show "wf_mat n m (matmul (madd A B) C)" using S assms(3,4) by (rule wf_matmul)
  show "wf_mat n m (madd (matmul A C) (matmul B C))" using AC BC by (rule wf_madd)
  fix i j assume i: "i < n" and j: "j < m"
  have "matmul (madd A B) C ! i ! j = (\<Sum>k<p. madd A B ! i ! k * C ! k ! j)"
    using S assms(3,4) i j by (rule matmul_nth)
  also have "\<dots> = (\<Sum>k<p. A ! i ! k * C ! k ! j + B ! i ! k * C ! k ! j)"
    by (intro sum.cong refl) (simp add: madd_nth [OF assms(1,2) i] distrib_right)
  also have "\<dots> = matmul A C ! i ! j + matmul B C ! i ! j"
    by (simp add: sum.distrib matmul_nth [OF assms(1,3,4) i j] matmul_nth [OF assms(2,3,4) i j])
  also have "\<dots> = madd (matmul A C) (matmul B C) ! i ! j"
    using madd_nth [OF AC BC i j] by simp
  finally show "matmul (madd A B) C ! i ! j = madd (matmul A C) (matmul B C) ! i ! j" .
qed

lemma matmul_msub_left:
  assumes "wf_mat n p A" and "wf_mat n p B" and "wf_mat p m C" and "0 < p"
  shows "matmul (msub A B) C = msub (matmul A C) (matmul B C)"
proof (rule mat_eqI [of n m])
  have S: "wf_mat n p (msub A B)" using assms(1,2) by (rule wf_msub)
  have AC: "wf_mat n m (matmul A C)" using assms(1,3,4) by (rule wf_matmul)
  have BC: "wf_mat n m (matmul B C)" using assms(2,3,4) by (rule wf_matmul)
  show "wf_mat n m (matmul (msub A B) C)" using S assms(3,4) by (rule wf_matmul)
  show "wf_mat n m (msub (matmul A C) (matmul B C))" using AC BC by (rule wf_msub)
  fix i j assume i: "i < n" and j: "j < m"
  have "matmul (msub A B) C ! i ! j = (\<Sum>k<p. msub A B ! i ! k * C ! k ! j)"
    using S assms(3,4) i j by (rule matmul_nth)
  also have "\<dots> = (\<Sum>k<p. A ! i ! k * C ! k ! j - B ! i ! k * C ! k ! j)"
    by (intro sum.cong refl) (simp add: msub_nth [OF assms(1,2) i] left_diff_distrib)
  also have "\<dots> = matmul A C ! i ! j - matmul B C ! i ! j"
    by (simp add: sum_subtractf matmul_nth [OF assms(1,3,4) i j]
        matmul_nth [OF assms(2,3,4) i j])
  also have "\<dots> = msub (matmul A C) (matmul B C) ! i ! j"
    using msub_nth [OF AC BC i j] by simp
  finally show "matmul (msub A B) C ! i ! j = msub (matmul A C) (matmul B C) ! i ! j" .
qed

lemma matmul_madd_right:
  assumes "wf_mat n p A" and "wf_mat p m B" and "wf_mat p m C" and "0 < p"
  shows "matmul A (madd B C) = madd (matmul A B) (matmul A C)"
proof (rule mat_eqI [of n m])
  have S: "wf_mat p m (madd B C)" using assms(2,3) by (rule wf_madd)
  have AB: "wf_mat n m (matmul A B)" using assms(1,2,4) by (rule wf_matmul)
  have AC: "wf_mat n m (matmul A C)" using assms(1,3,4) by (rule wf_matmul)
  show "wf_mat n m (matmul A (madd B C))" using assms(1) S assms(4) by (rule wf_matmul)
  show "wf_mat n m (madd (matmul A B) (matmul A C))" using AB AC by (rule wf_madd)
  fix i j assume i: "i < n" and j: "j < m"
  have "matmul A (madd B C) ! i ! j = (\<Sum>k<p. A ! i ! k * madd B C ! k ! j)"
    using assms(1) S assms(4) i j by (rule matmul_nth)
  also have "\<dots> = (\<Sum>k<p. A ! i ! k * B ! k ! j + A ! i ! k * C ! k ! j)"
    by (intro sum.cong refl) (simp add: madd_nth [OF assms(2,3) _ j] distrib_left)
  also have "\<dots> = matmul A B ! i ! j + matmul A C ! i ! j"
    by (simp add: sum.distrib matmul_nth [OF assms(1,2,4) i j] matmul_nth [OF assms(1,3,4) i j])
  also have "\<dots> = madd (matmul A B) (matmul A C) ! i ! j"
    using madd_nth [OF AB AC i j] by simp
  finally show "matmul A (madd B C) ! i ! j = madd (matmul A B) (matmul A C) ! i ! j" .
qed

lemma matmul_msub_right:
  assumes "wf_mat n p A" and "wf_mat p m B" and "wf_mat p m C" and "0 < p"
  shows "matmul A (msub B C) = msub (matmul A B) (matmul A C)"
proof (rule mat_eqI [of n m])
  have S: "wf_mat p m (msub B C)" using assms(2,3) by (rule wf_msub)
  have AB: "wf_mat n m (matmul A B)" using assms(1,2,4) by (rule wf_matmul)
  have AC: "wf_mat n m (matmul A C)" using assms(1,3,4) by (rule wf_matmul)
  show "wf_mat n m (matmul A (msub B C))" using assms(1) S assms(4) by (rule wf_matmul)
  show "wf_mat n m (msub (matmul A B) (matmul A C))" using AB AC by (rule wf_msub)
  fix i j assume i: "i < n" and j: "j < m"
  have "matmul A (msub B C) ! i ! j = (\<Sum>k<p. A ! i ! k * msub B C ! k ! j)"
    using assms(1) S assms(4) i j by (rule matmul_nth)
  also have "\<dots> = (\<Sum>k<p. A ! i ! k * B ! k ! j - A ! i ! k * C ! k ! j)"
    by (intro sum.cong refl) (simp add: msub_nth [OF assms(2,3) _ j] right_diff_distrib)
  also have "\<dots> = matmul A B ! i ! j - matmul A C ! i ! j"
    by (simp add: sum_subtractf matmul_nth [OF assms(1,2,4) i j]
        matmul_nth [OF assms(1,3,4) i j])
  also have "\<dots> = msub (matmul A B) (matmul A C) ! i ! j"
    using msub_nth [OF AB AC i j] by simp
  finally show "matmul A (msub B C) ! i ! j = msub (matmul A B) (matmul A C) ! i ! j" .
qed

lemma matmul_eye_left:
  assumes "wf_mat n m A" and "0 < n"
  shows "matmul (eye n) A = A"
proof (rule mat_eqI [of n m])
  show "wf_mat n m (matmul (eye n) A)" using wf_eye assms by (rule wf_matmul)
  show "wf_mat n m A" by (rule assms(1))
  fix i j assume i: "i < n" and j: "j < m"
  have "matmul (eye n) A ! i ! j = (\<Sum>k<n. eye n ! i ! k * A ! k ! j)"
    using wf_eye assms i j by (rule matmul_nth)
  also have "\<dots> = (\<Sum>k<n. if k = i then A ! k ! j else 0)"
    using i by (intro sum.cong refl) (auto simp: eye_nth)
  also have "\<dots> = A ! i ! j" using i by simp
  finally show "matmul (eye n) A ! i ! j = A ! i ! j" .
qed

lemma matmul_eye_right:
  assumes "wf_mat n m A" and "0 < m"
  shows "matmul A (eye m) = A"
proof (rule mat_eqI [of n m])
  show "wf_mat n m (matmul A (eye m))" using assms(1) wf_eye assms(2) by (rule wf_matmul)
  show "wf_mat n m A" by (rule assms(1))
  fix i j assume i: "i < n" and j: "j < m"
  have "matmul A (eye m) ! i ! j = (\<Sum>k<m. A ! i ! k * eye m ! k ! j)"
    using assms(1) wf_eye assms(2) i j by (rule matmul_nth)
  also have "\<dots> = (\<Sum>k<m. if k = j then A ! i ! k else 0)"
    using j by (intro sum.cong refl) (auto simp: eye_nth)
  also have "\<dots> = A ! i ! j" using j by simp
  finally show "matmul A (eye m) ! i ! j = A ! i ! j" .
qed

lemma mat_T_eye: "0 < n \<Longrightarrow> mat_T (eye n) = eye n"
proof (rule mat_eqI [of n n])
  assume n: "0 < n"
  show "wf_mat n n (mat_T (eye n))" using wf_eye n by (rule wf_mat_T)
  show "wf_mat n n (eye n)" by (rule wf_eye)
  fix i j assume i: "i < n" and j: "j < n"
  show "mat_T (eye n) ! i ! j = eye n ! i ! j"
    using mat_T_nth [OF wf_eye n j i] i j by (simp add: eye_nth)
qed

lemma mat_vec_matmul:
  assumes "wf_mat n p A" and "wf_mat p m B" and "length v = m" and "0 < p"
  shows "mat_vec (matmul A B) v = mat_vec A (mat_vec B v)"
proof (rule nth_equalityI)
  have AB: "wf_mat n m (matmul A B)" using assms(1,2,4) by (rule wf_matmul)
  have lB: "length (mat_vec B v) = p" using assms(2) by (simp add: length_mat_vec wf_mat_length)
  show "length (mat_vec (matmul A B) v) = length (mat_vec A (mat_vec B v))"
    using AB assms(1) by (simp add: length_mat_vec wf_mat_length)
  fix i assume "i < length (mat_vec (matmul A B) v)"
  then have i: "i < n" using AB by (simp add: length_mat_vec wf_mat_length)
  have "mat_vec (matmul A B) v ! i = (\<Sum>l<m. matmul A B ! i ! l * v ! l)"
    using AB assms(3) i by (rule mat_vec_nth)
  also have "\<dots> = (\<Sum>l<m. (\<Sum>k<p. A ! i ! k * B ! k ! l) * v ! l)"
    by (intro sum.cong refl) (simp add: matmul_nth [OF assms(1,2,4) i])
  also have "\<dots> = (\<Sum>l<m. \<Sum>k<p. A ! i ! k * (B ! k ! l * v ! l))"
    by (simp add: sum_distrib_right mult.assoc)
  also have "\<dots> = (\<Sum>k<p. \<Sum>l<m. A ! i ! k * (B ! k ! l * v ! l))"
    by (rule sum.swap)
  also have "\<dots> = (\<Sum>k<p. A ! i ! k * (\<Sum>l<m. B ! k ! l * v ! l))"
    by (simp add: sum_distrib_left)
  also have "\<dots> = (\<Sum>k<p. A ! i ! k * mat_vec B v ! k)"
    by (intro sum.cong refl) (simp add: mat_vec_nth [OF assms(2,3)])
  also have "\<dots> = mat_vec A (mat_vec B v) ! i"
    using mat_vec_nth [OF assms(1) lB i] by simp
  finally show "mat_vec (matmul A B) v ! i = mat_vec A (mat_vec B v) ! i" .
qed

lemma mat_vec_eye:
  assumes "length v = n"
  shows "mat_vec (eye n) v = v"
proof (rule nth_equalityI)
  show "length (mat_vec (eye n) v) = length v"
    using assms by (simp add: length_mat_vec eye_def)
  fix i assume "i < length (mat_vec (eye n) v)"
  then have i: "i < n" by (simp add: length_mat_vec eye_def)
  have "mat_vec (eye n) v ! i = (\<Sum>k<n. eye n ! i ! k * v ! k)"
    using wf_eye assms i by (rule mat_vec_nth)
  also have "\<dots> = (\<Sum>k<n. if k = i then v ! k else 0)"
    using i by (intro sum.cong refl) (auto simp: eye_nth)
  also have "\<dots> = v ! i" using i by simp
  finally show "mat_vec (eye n) v ! i = v ! i" .
qed

text \<open>The transpose is the adjoint for the scalar product.\<close>

lemma dot_mat_vec_adjoint:
  assumes "wf_mat n m A" and "length v = n" and "length w = m" and "0 < n"
  shows "dot v (mat_vec A w) = dot (mat_vec (mat_T A) v) w"
proof -
  have TA: "wf_mat m n (mat_T A)" using assms(1,4) by (rule wf_mat_T)
  have "dot v (mat_vec A w) = (\<Sum>i<n. v ! i * mat_vec A w ! i)"
    using dot_sum [of v "mat_vec A w"] assms(1,2) by (simp add: length_mat_vec wf_mat_length)
  also have "\<dots> = (\<Sum>i<n. v ! i * (\<Sum>k<m. A ! i ! k * w ! k))"
    by (intro sum.cong refl) (simp add: mat_vec_nth [OF assms(1,3)])
  also have "\<dots> = (\<Sum>i<n. \<Sum>k<m. (A ! i ! k * v ! i) * w ! k)"
    by (simp add: sum_distrib_left mult_ac)
  also have "\<dots> = (\<Sum>k<m. \<Sum>i<n. (A ! i ! k * v ! i) * w ! k)"
    by (rule sum.swap)
  also have "\<dots> = (\<Sum>k<m. (\<Sum>i<n. mat_T A ! k ! i * v ! i) * w ! k)"
    by (simp add: sum_distrib_right mat_T_nth [OF assms(1,4)])
  also have "\<dots> = (\<Sum>k<m. mat_vec (mat_T A) v ! k * w ! k)"
    by (intro sum.cong refl) (simp add: mat_vec_nth [OF TA assms(2)])
  also have "\<dots> = dot (mat_vec (mat_T A) v) w"
    using dot_sum [of "mat_vec (mat_T A) v" w] TA assms(3)
    by (simp add: length_mat_vec wf_mat_length)
  finally show ?thesis .
qed

section \<open>The matrices of the filter\<close>

lemma wf_hcat:
  assumes "wf_mat n m A" and "wf_mat n m' B"
  shows "wf_mat n (m + m') (map2 (@) A B)"
  using assms by (intro wf_matI) (simp_all add: wf_mat_length wf_mat_row)

lemma hcat_nth:
  assumes "wf_mat n m A" and "wf_mat n m' B" and "i < n"
  shows "map2 (@) A B ! i ! j = (if j < m then A ! i ! j else B ! i ! (j - m))"
  using assms by (simp add: wf_mat_length wf_mat_row nth_append)

lemma wf_vcat:
  assumes "wf_mat n m A" and "wf_mat n' m B"
  shows "wf_mat (n + n') m (A @ B)"
  using assms by (simp add: wf_mat_def)

lemma block_1x2: "block [[A, B]] = map2 (@) A B"
  by (simp add: block_def)

lemma block_2x2: "block [[A, B], [C, D]] = map2 (@) A B @ map2 (@) C D"
  by (simp add: block_def)

lemma KalmanTracker_init_fields:
  "k_ndim (KalmanTracker_init n sz sv) = n"
  "k_I (KalmanTracker_init n sz sv) = eye n"
  "k_Z (KalmanTracker_init n sz sv) = zeros n n"
  "k_H (KalmanTracker_init n sz sv) = map2 (@) (eye n) (zeros n n)"
  "k_R (KalmanTracker_init n sz sv) = diag (square sz)"
  "k_P0 (KalmanTracker_init n sz sv) =
     map2 (@) (diag (square sz)) (zeros n n) @ map2 (@) (zeros n n) (diag (square sv))"
  by (simp_all add: KalmanTracker_init_def Let_def block_1x2 block_2x2)

lemma trans_F_eq:
  "trans_F (KalmanTracker_init n sz sv) dt =
     map2 (@) (eye n) (mscale dt (eye n)) @ map2 (@) (zeros n n) (eye n)"
  by (simp add: trans_F_def KalmanTracker_init_fields block_2x2)

lemma wf_trans_F: "wf_mat (2 * n) (2 * n) (trans_F (KalmanTracker_init n sz sv) dt)"
proof -
  have "wf_mat (n + n) (n + n) (map2 (@) (eye n) (mscale dt (eye n)) @ map2 (@) (zeros n n) (eye n))"
    by (intro wf_vcat wf_hcat wf_eye wf_mscale wf_zeros)
  then show ?thesis by (simp add: trans_F_eq mult_2)
qed

lemma trans_F_nth:
  assumes "i < 2 * n" and "j < 2 * n"
  shows "trans_F (KalmanTracker_init n sz sv) dt ! i ! j =
           (if j = i then 1 else if i < n \<and> j = i + n then dt else 0)"
proof (cases "i < n")
  case True
  have top: "wf_mat n (n + n) (map2 (@) (eye n) (mscale dt (eye n)))"
    by (intro wf_hcat wf_eye wf_mscale)
  have "trans_F (KalmanTracker_init n sz sv) dt ! i = map2 (@) (eye n) (mscale dt (eye n)) ! i"
    using True wf_mat_length [OF top] by (simp add: trans_F_eq nth_append)
  then have "trans_F (KalmanTracker_init n sz sv) dt ! i ! j =
               (if j < n then eye n ! i ! j else mscale dt (eye n) ! i ! (j - n))"
    using hcat_nth [OF wf_eye wf_mscale [OF wf_eye] True, of dt j] by simp
  also have "\<dots> = (if j = i then 1 else if i < n \<and> j = i + n then dt else 0)"
  proof (cases "j < n")
    case jn: True
    then show ?thesis using True by (auto simp: eye_nth)
  next
    case False
    then have "j - n < n" using assms(2) by simp
    then have "mscale dt (eye n) ! i ! (j - n) = dt * (if i = j - n then 1 else 0)"
      using True by (simp add: mscale_nth [OF wf_eye] eye_nth)
    then show ?thesis using False True by auto
  qed
  finally show ?thesis .
next
  case False
  have top: "wf_mat n (n + n) (map2 (@) (eye n) (mscale dt (eye n)))"
    by (intro wf_hcat wf_eye wf_mscale)
  have in': "i - n < n" using assms(1) False by simp
  have "trans_F (KalmanTracker_init n sz sv) dt ! i = map2 (@) (zeros n n) (eye n) ! (i - n)"
    using False wf_mat_length [OF top] by (simp add: trans_F_eq nth_append)
  then have "trans_F (KalmanTracker_init n sz sv) dt ! i ! j =
               (if j < n then zeros n n ! (i - n) ! j else eye n ! (i - n) ! (j - n))"
    using hcat_nth [OF wf_zeros wf_eye in', of n j] by simp
  also have "\<dots> = (if j = i then 1 else if i < n \<and> j = i + n then dt else 0)"
  proof (cases "j < n")
    case True
    then show ?thesis using False in' by (auto simp: zeros_nth)
  next
    case jn: False
    then have "j - n < n" using assms(2) by simp
    then show ?thesis using False jn in' by (auto simp: eye_nth)
  qed
  finally show ?thesis .
qed

text \<open>A row of the transition matrix has at most two entries: the diagonal one and,
  in the upper half, the one that carries the duration.\<close>

lemma trans_F_row_sum:
  assumes "0 < n" and "i < 2 * n"
  shows "(\<Sum>k<2 * n. trans_F (KalmanTracker_init n sz sv) dt ! i ! k * g k) =
           g i + (if i < n then dt * g (i + n) else 0)"
proof -
  let ?F = "trans_F (KalmanTracker_init n sz sv) dt"
  have "(\<Sum>k<2 * n. ?F ! i ! k * g k) =
          (\<Sum>k<2 * n. (if k = i then g k else 0)
                      + (if k = i + n then (if i < n then dt * g k else 0) else 0))"
    using assms by (intro sum.cong refl) (auto simp: trans_F_nth)
  also have "\<dots> = (\<Sum>k<2 * n. if k = i then g k else 0)
                  + (\<Sum>k<2 * n. if k = i + n then (if i < n then dt * g k else 0) else 0)"
    by (rule sum.distrib)
  also have "(\<Sum>k<2 * n. if k = i then g k else 0) = g i"
    using assms(2) by simp
  also have "(\<Sum>k<2 * n. if k = i + n then (if i < n then dt * g k else 0) else 0) =
               (if i < n then dt * g (i + n) else 0)"
    by (cases "i < n") simp_all
  finally show ?thesis .
qed

lemma trans_F_mult:
  assumes "0 < n"
  shows "matmul (trans_F (KalmanTracker_init n sz sv) a) (trans_F (KalmanTracker_init n sz sv) b) =
           trans_F (KalmanTracker_init n sz sv) (b + a)"
proof (rule mat_eqI [of "2 * n" "2 * n"])
  let ?k = "KalmanTracker_init n sz sv"
  have p: "0 < 2 * n" using assms by simp
  show "wf_mat (2 * n) (2 * n) (matmul (trans_F ?k a) (trans_F ?k b))"
    using wf_trans_F wf_trans_F p by (rule wf_matmul)
  show "wf_mat (2 * n) (2 * n) (trans_F ?k (b + a))" by (rule wf_trans_F)
  fix i j assume i: "i < 2 * n" and j: "j < 2 * n"
  have "matmul (trans_F ?k a) (trans_F ?k b) ! i ! j =
          (\<Sum>l<2 * n. trans_F ?k a ! i ! l * trans_F ?k b ! l ! j)"
    using wf_trans_F wf_trans_F p i j by (rule matmul_nth)
  also have "\<dots> = trans_F ?k b ! i ! j + (if i < n then a * trans_F ?k b ! (i + n) ! j else 0)"
    using assms i by (rule trans_F_row_sum)
  also have "\<dots> = trans_F ?k (b + a) ! i ! j"
    using i j assms by (auto simp: trans_F_nth)
  finally show "matmul (trans_F ?k a) (trans_F ?k b) ! i ! j = trans_F ?k (b + a) ! i ! j" .
qed

lemma trans_F_zero:
  assumes "0 < n"
  shows "trans_F (KalmanTracker_init n sz sv) 0 = eye (2 * n)"
proof (rule mat_eqI [of "2 * n" "2 * n"])
  show "wf_mat (2 * n) (2 * n) (trans_F (KalmanTracker_init n sz sv) 0)" by (rule wf_trans_F)
  show "wf_mat (2 * n) (2 * n) (eye (2 * n))" by (rule wf_eye)
  fix i j assume "i < 2 * n" and "j < 2 * n"
  then show "trans_F (KalmanTracker_init n sz sv) 0 ! i ! j = eye (2 * n) ! i ! j"
    by (auto simp: trans_F_nth eye_nth)
qed

text \<open>
  Claim C8. For a filter of dimension \<open>n > 0\<close>, a state vector of length \<open>2n\<close> and a
  \<open>2n \<times> 2n\<close> covariance, predicting by \<open>dt1\<close> and then by \<open>dt2\<close> is predicting by
  \<open>dt1 + dt2\<close>, and predicting by 0 changes nothing (over exact arithmetic).
\<close>

theorem predict_composes:
  assumes "0 < n" and "length x = 2 * n" and "wf_mat (2 * n) (2 * n) P"
  shows "(case KalmanTracker_predict (KalmanTracker_init n sz sv) x P dt1 of
            (x1, P1) \<Rightarrow> KalmanTracker_predict (KalmanTracker_init n sz sv) x1 P1 dt2)
           = KalmanTracker_predict (KalmanTracker_init n sz sv) x P (dt1 + dt2)
         \<and> KalmanTracker_predict (KalmanTracker_init n sz sv) x P 0 = (x, P)"
proof -
  let ?k = "KalmanTracker_init n sz sv"
  let ?F1 = "trans_F ?k dt1" and ?F2 = "trans_F ?k dt2" and ?F = "trans_F ?k (dt1 + dt2)"
  have p: "0 < 2 * n" using assms(1) by simp
  have w1: "wf_mat (2 * n) (2 * n) ?F1" and w2: "wf_mat (2 * n) (2 * n) ?F2"
    by (rule wf_trans_F)+
  have t1: "wf_mat (2 * n) (2 * n) (mat_T ?F1)" and t2: "wf_mat (2 * n) (2 * n) (mat_T ?F2)"
    using w1 w2 p by (simp_all add: wf_mat_T)
  have FF: "matmul ?F2 ?F1 = ?F" using assms(1) by (rule trans_F_mult)
  have FT: "mat_T ?F = matmul (mat_T ?F1) (mat_T ?F2)"
    unfolding FF [symmetric] using w2 w1 p p p by (rule mat_T_matmul)
  have F1P: "wf_mat (2 * n) (2 * n) (matmul ?F1 P)" using w1 assms(3) p by (rule wf_matmul)
  have F2F1P: "wf_mat (2 * n) (2 * n) (matmul ?F P)"
    using wf_trans_F assms(3) p by (rule wf_matmul)
  have xs: "mat_vec ?F2 (mat_vec ?F1 x) = mat_vec ?F x"
    using mat_vec_matmul [OF w2 w1 assms(2) p] FF by simp
  have "matmul (matmul ?F2 (matmul (matmul ?F1 P) (mat_T ?F1))) (mat_T ?F2) =
          matmul (matmul (matmul ?F2 (matmul ?F1 P)) (mat_T ?F1)) (mat_T ?F2)"
    using matmul_assoc [OF w2 F1P t1 p p] by simp
  also have "\<dots> = matmul (matmul (matmul ?F P) (mat_T ?F1)) (mat_T ?F2)"
    using matmul_assoc [OF w2 w1 assms(3) p p] FF by simp
  also have "\<dots> = matmul (matmul ?F P) (matmul (mat_T ?F1) (mat_T ?F2))"
    using F2F1P t1 t2 p p by (rule matmul_assoc)
  also have "\<dots> = matmul (matmul ?F P) (mat_T ?F)" using FT by simp
  finally have Ps: "matmul (matmul ?F2 (matmul (matmul ?F1 P) (mat_T ?F1))) (mat_T ?F2) =
                      matmul (matmul ?F P) (mat_T ?F)" .
  have compose: "(case KalmanTracker_predict ?k x P dt1 of
                    (x1, P1) \<Rightarrow> KalmanTracker_predict ?k x1 P1 dt2)
                   = KalmanTracker_predict ?k x P (dt1 + dt2)"
    using xs Ps by (simp add: KalmanTracker_predict_def Let_def)
  have Z: "trans_F ?k 0 = eye (2 * n)" using assms(1) by (rule trans_F_zero)
  have "matmul (matmul (eye (2 * n)) P) (mat_T (eye (2 * n))) = P"
    using matmul_eye_left [OF assms(3) p] matmul_eye_right [OF assms(3) p] mat_T_eye [OF p]
    by simp
  then have zero: "KalmanTracker_predict ?k x P 0 = (x, P)"
    using Z mat_vec_eye [OF assms(2)] by (simp add: KalmanTracker_predict_def Let_def)
  show ?thesis using compose zero by (rule conjI)
qed

section \<open>The linear solve is sound\<close>

lemma find_pivot_Some:
  assumes "find_pivot rows = Some ((a, b), rest)"
  shows "a \<noteq> []" and "hd a \<noteq> 0" and "set rows = insert (a, b) (set rest)"
    and "length rows = Suc (length rest)"
proof -
  have "a \<noteq> [] \<and> hd a \<noteq> 0 \<and> set rows = insert (a, b) (set rest)
        \<and> length rows = Suc (length rest)"
    using assms
  proof (induction rows arbitrary: rest)
    case Nil
    then show ?case by simp
  next
    case (Cons r rows)
    obtain a0 b0 where r: "r = (a0, b0)" by (cases r)
    show ?case
    proof (cases "a0 \<noteq> [] \<and> hd a0 \<noteq> 0")
      case True
      then show ?thesis using Cons.prems r by auto
    next
      case False
      then obtain rest' where fp: "find_pivot rows = Some ((a, b), rest')"
        and rest: "rest = (a0, b0) # rest'"
        using Cons.prems r by (auto split: option.splits)
      from Cons.IH [OF fp] show ?thesis using r rest by auto
    qed
  qed
  then show "a \<noteq> []" and "hd a \<noteq> 0" and "set rows = insert (a, b) (set rest)"
    and "length rows = Suc (length rest)" by simp_all
qed

lemma dot_Cons: "dot (a # u) (b # v) = a * b + dot u v"
  by (simp add: dot_def)

lemma dot_Nil: "dot [] v = 0"
  by (simp add: dot_def)

lemma dot_div_left: "dot (map (\<lambda>c. c / p) u) v = dot u v / p"
proof (induction u arbitrary: v)
  case Nil
  then show ?case by (simp add: dot_def)
next
  case (Cons a u)
  then show ?case by (cases v) (simp_all add: dot_def add_divide_distrib)
qed

lemma dot_sub_scale:
  assumes "length u = length w"
  shows "dot (vsub u (vscale h w)) v = dot u v - h * dot w v"
  using assms
proof (induction u w arbitrary: v rule: list_induct2)
  case Nil
  then show ?case by (simp add: dot_def vsub_def vscale_def)
next
  case (Cons a u b w)
  show ?case
  proof (cases v)
    case Nil
    then show ?thesis by (simp add: dot_def)
  next
    case (Cons c v')
    have "dot (vsub u (vscale h w)) v' = dot u v' - h * dot w v'" by (rule Cons.IH)
    then show ?thesis using Cons
      by (simp add: dot_def vsub_def vscale_def algebra_simps)
  qed
qed

lemma length_lincomb: "\<forall>x \<in> set X. length x = m \<Longrightarrow> length (lincomb m a X) = m"
  by (induction m a X rule: lincomb.induct) (simp_all add: vadd_def vscale_def)

lemma lincomb_nth:
  "\<forall>x \<in> set X. length x = m \<Longrightarrow> j < m \<Longrightarrow> lincomb m a X ! j = dot a (col X j)"
proof (induction m a X rule: lincomb.induct)
  case (1 m c cs x xs)
  then show ?case
    by (simp add: vadd_def vscale_def length_lincomb col_def dot_def)
qed (simp_all add: dot_def col_def)

lemma col_Cons: "col (x # X) j = x ! j # col X j"
  by (simp add: col_def)

lemma gauss_sound:
  assumes "gauss m n rows = Some X" and "length rows = n"
    and "\<forall>r \<in> set rows. length (fst r) = n \<and> length (snd r) = m"
  shows "length X = n \<and> (\<forall>x \<in> set X. length x = m)
         \<and> (\<forall>r \<in> set rows. \<forall>j<m. dot (fst r) (col X j) = snd r ! j)"
  using assms
proof (induction n arbitrary: rows X)
  case 0
  then show ?case by simp
next
  case (Suc n)
  from Suc.prems(1) obtain a b rest where fp: "find_pivot rows = Some ((a, b), rest)"
    by (cases "find_pivot rows") auto
  note piv = find_pivot_Some [OF fp]
  define p where "p = hd a"
  define a' where "a' = map (\<lambda>c. c / p) (tl a)"
  define b' where "b' = map (\<lambda>c. c / p) b"
  define reduced where
    "reduced = map (\<lambda>(c, d). (vsub (tl c) (vscale (hd c) a'), vsub d (vscale (hd c) b'))) rest"
  from Suc.prems(1) fp obtain X' where g: "gauss m n reduced = Some X'"
    and X: "X = vsub b' (lincomb m a' X') # X'"
    by (auto simp: Let_def p_def a'_def b'_def reduced_def split: option.splits)
  have shape: "length c = Suc n \<and> length d = m" if "(c, d) \<in> set rows" for c d
    using Suc.prems(3) that by fastforce
  have ab: "(a, b) \<in> set rows" and restsub: "set rest \<subseteq> set rows"
    using piv(3) by auto
  have la: "length a = Suc n" and lb: "length b = m" using shape [OF ab] by simp_all
  have la': "length a' = n" and lb': "length b' = m" using la lb by (simp_all add: a'_def b'_def)
  have lred: "length reduced = n" using piv(4) Suc.prems(2) by (simp add: reduced_def)
  have sred: "\<forall>r \<in> set reduced. length (fst r) = n \<and> length (snd r) = m"
  proof
    fix r assume "r \<in> set reduced"
    then obtain c d where cd: "(c, d) \<in> set rest"
      and r: "r = (vsub (tl c) (vscale (hd c) a'), vsub d (vscale (hd c) b'))"
      by (auto simp: reduced_def)
    have "length c = Suc n" "length d = m" using shape cd restsub by auto
    then show "length (fst r) = n \<and> length (snd r) = m"
      using r la' lb' by (simp add: vsub_def vscale_def)
  qed
  from Suc.IH [OF g lred sred]
  have lX': "length X' = n" and rX': "\<forall>x \<in> set X'. length x = m"
    and sol: "\<forall>r \<in> set reduced. \<forall>j<m. dot (fst r) (col X' j) = snd r ! j"
    by simp_all
  define x0 where "x0 = vsub b' (lincomb m a' X')"
  have lx0: "length x0 = m" using lb' length_lincomb [OF rX'] by (simp add: x0_def vsub_def)
  have x0j: "x0 ! j = b ! j / p - dot (tl a) (col X' j) / p" if "j < m" for j
    using that lb lb' length_lincomb [OF rX', of a'] lincomb_nth [OF rX' that, of a']
    by (simp add: x0_def vsub_def b'_def a'_def dot_div_left)
  have p0: "p \<noteq> 0" using piv(2) by (simp add: p_def)
  have head: "dot c (col X j) = hd c * x0 ! j + dot (tl c) (col X' j)"
    if "length c = Suc n" for c j
  proof -
    from that obtain h tc where "c = h # tc" by (cases c) auto
    then show ?thesis by (simp add: X x0_def [symmetric] col_Cons dot_Cons)
  qed
  have pivot_ok: "dot a (col X j) = b ! j" if "j < m" for j
    using head [OF la, of j] x0j [OF that] p0 by (simp add: p_def [symmetric] field_simps)
  have rest_ok: "dot c (col X j) = d ! j" if cd: "(c, d) \<in> set rest" and j: "j < m" for c d j
  proof -
    have lc: "length c = Suc n" and ld: "length d = m" using shape cd restsub by auto
    let ?r = "(vsub (tl c) (vscale (hd c) a'), vsub d (vscale (hd c) b'))"
    have "?r \<in> set reduced" using cd by (force simp: reduced_def)
    then have "dot (fst ?r) (col X' j) = snd ?r ! j" using sol j by blast
    then have "dot (tl c) (col X' j) - hd c * dot a' (col X' j) = d ! j - hd c * b' ! j"
      using dot_sub_scale [of "tl c" a' "hd c" "col X' j"] lc la' ld lb' j
      by (simp add: vsub_def vscale_def)
    moreover have "dot a' (col X' j) = dot (tl a) (col X' j) / p"
      by (simp add: a'_def dot_div_left)
    moreover have "b' ! j = b ! j / p" using j lb by (simp add: b'_def)
    ultimately show ?thesis
      using head [OF lc, of j] x0j [OF j] by (simp add: algebra_simps)
  qed
  have all_ok: "\<forall>r \<in> set rows. \<forall>j<m. dot (fst r) (col X j) = snd r ! j"
  proof (intro ballI allI impI)
    fix r j assume r: "r \<in> set rows" and j: "j < m"
    obtain c d where cd: "r = (c, d)" by (cases r)
    from r piv(3) cd have "(c, d) = (a, b) \<or> (c, d) \<in> set rest" by auto
    then show "dot (fst r) (col X j) = snd r ! j"
      using pivot_ok [OF j] rest_ok [OF _ j] cd by auto
  qed
  have "length X = Suc n" using X lX' by simp
  moreover have "\<forall>x \<in> set X. length x = m" using X rX' lx0 by (simp add: x0_def)
  ultimately show ?case using all_ok by blast
qed

lemma matmul_nth_dot:
  assumes "wf_mat n p A" and "wf_mat p m B" and "0 < p" and "i < n" and "j < m"
  shows "matmul A B ! i ! j = dot (A ! i) (col B j)"
  using assms by (simp add: matmul_def ncols_wf wf_mat_length)

lemma solve_sound:
  assumes "wf_mat n n A" and "wf_mat n m B" and "0 < n" and "solve A B = Some X"
  shows "wf_mat n m X" and "matmul A X = B"
proof -
  have lA: "length A = n" and lB: "length B = n" using assms(1,2) by (simp_all add: wf_mat_def)
  have g: "gauss m n (zip A B) = Some X"
    using assms(4) ncols_wf [OF assms(2,3)] lA by (simp add: solve_def)
  have lz: "length (zip A B) = n" using lA lB by simp
  have sz: "\<forall>r \<in> set (zip A B). length (fst r) = n \<and> length (snd r) = m"
  proof
    fix r assume "r \<in> set (zip A B)"
    then have "fst r \<in> set A" "snd r \<in> set B"
      by (metis prod.collapse set_zip_leftD, metis prod.collapse set_zip_rightD)
    then show "length (fst r) = n \<and> length (snd r) = m"
      using assms(1,2) by (simp add: wf_mat_def list_all_iff)
  qed
  from gauss_sound [OF g lz sz]
  have lX: "length X = n" and rX: "\<forall>x \<in> set X. length x = m"
    and sol: "\<forall>r \<in> set (zip A B). \<forall>j<m. dot (fst r) (col X j) = snd r ! j"
    by simp_all
  show wX: "wf_mat n m X" using lX rX by (simp add: wf_mat_def list_all_iff)
  show "matmul A X = B"
  proof (rule mat_eqI [of n m])
    show "wf_mat n m (matmul A X)" using assms(1) wX assms(3) by (rule wf_matmul)
    show "wf_mat n m B" by (rule assms(2))
    fix i j assume i: "i < n" and j: "j < m"
    have "(A ! i, B ! i) \<in> set (zip A B)"
      using i lA lB by (auto simp: set_zip)
    then have "dot (A ! i) (col X j) = B ! i ! j" using sol j by fastforce
    then show "matmul A X ! i ! j = B ! i ! j"
      using matmul_nth_dot [OF assms(1) wX assms(3) i j] by simp
  qed
qed

section \<open>Symmetric positive semi-definite covariances\<close>

lemma msub_madd_cancel:
  assumes "wf_mat n m A" and "wf_mat n m B"
  shows "msub (madd A B) B = A"
proof (rule mat_eqI [of n m])
  have S: "wf_mat n m (madd A B)" using assms by (rule wf_madd)
  show "wf_mat n m (msub (madd A B) B)" using S assms(2) by (rule wf_msub)
  show "wf_mat n m A" by (rule assms(1))
  fix i j assume i: "i < n" and j: "j < m"
  show "msub (madd A B) B ! i ! j = A ! i ! j"
    using msub_nth [OF S assms(2) i j] madd_nth [OF assms i j] by simp
qed

lemma madd_msub_cancel:
  assumes "wf_mat n m A" and "wf_mat n m B"
  shows "madd (msub A B) B = A"
proof (rule mat_eqI [of n m])
  have S: "wf_mat n m (msub A B)" using assms by (rule wf_msub)
  show "wf_mat n m (madd (msub A B) B)" using S assms(2) by (rule wf_madd)
  show "wf_mat n m A" by (rule assms(1))
  fix i j assume i: "i < n" and j: "j < m"
  show "madd (msub A B) B ! i ! j = A ! i ! j"
    using madd_nth [OF S assms(2) i j] msub_nth [OF assms i j] by simp
qed

lemma msub_msub_cancel:
  assumes "wf_mat n m A" and "wf_mat n m B"
  shows "msub A (msub A B) = B"
proof (rule mat_eqI [of n m])
  have S: "wf_mat n m (msub A B)" using assms by (rule wf_msub)
  show "wf_mat n m (msub A (msub A B))" using assms(1) S by (rule wf_msub)
  show "wf_mat n m B" by (rule assms(2))
  fix i j assume i: "i < n" and j: "j < m"
  show "msub A (msub A B) ! i ! j = B ! i ! j"
    using msub_nth [OF assms(1) S i j] msub_nth [OF assms i j] by simp
qed

lemma quad_congruence:
  assumes "wf_mat n n P" and "wf_mat m n A" and "length v = m" and "0 < n" and "0 < m"
  shows "dot v (mat_vec (matmul (matmul A P) (mat_T A)) v) =
           dot (mat_vec (mat_T A) v) (mat_vec P (mat_vec (mat_T A) v))"
proof -
  have TA: "wf_mat n m (mat_T A)" using assms(2,5) by (rule wf_mat_T)
  have AP: "wf_mat m n (matmul A P)" using assms(2,1,4) by (rule wf_matmul)
  have lw: "length (mat_vec (mat_T A) v) = n" using TA by (simp add: length_mat_vec wf_mat_length)
  have lPw: "length (mat_vec P (mat_vec (mat_T A) v)) = n"
    using assms(1) by (simp add: length_mat_vec wf_mat_length)
  have "mat_vec (matmul (matmul A P) (mat_T A)) v = mat_vec (matmul A P) (mat_vec (mat_T A) v)"
    using AP TA assms(3,4) by (rule mat_vec_matmul)
  also have "\<dots> = mat_vec A (mat_vec P (mat_vec (mat_T A) v))"
    using assms(2,1) lw assms(4) by (rule mat_vec_matmul)
  finally show ?thesis
    using dot_mat_vec_adjoint [OF assms(2,3) lPw assms(5)] by simp
qed

lemma psd_congruence:
  assumes "psd n P" and "wf_mat n n P" and "wf_mat m n A" and "0 < n" and "0 < m"
  shows "psd m (matmul (matmul A P) (mat_T A))"
  unfolding psd_def
proof (intro allI impI)
  fix v :: vec assume v: "length v = m"
  have TA: "wf_mat n m (mat_T A)" using assms(3,5) by (rule wf_mat_T)
  have "length (mat_vec (mat_T A) v) = n" using TA by (simp add: length_mat_vec wf_mat_length)
  then have "0 \<le> dot (mat_vec (mat_T A) v) (mat_vec P (mat_vec (mat_T A) v))"
    using assms(1) by (simp add: psd_def)
  then show "0 \<le> dot v (mat_vec (matmul (matmul A P) (mat_T A)) v)"
    using quad_congruence [OF assms(2,3) v assms(4,5)] by simp
qed

lemma sym_congruence:
  assumes "sym_mat P" and "wf_mat n n P" and "wf_mat m n A" and "0 < n" and "0 < m"
  shows "sym_mat (matmul (matmul A P) (mat_T A))"
proof -
  have TA: "wf_mat n m (mat_T A)" using assms(3,5) by (rule wf_mat_T)
  have AP: "wf_mat m n (matmul A P)" using assms(3,2,4) by (rule wf_matmul)
  have PT: "mat_T P = P" using assms(1) by (simp add: sym_mat_def)
  have "mat_T (matmul (matmul A P) (mat_T A)) = matmul (mat_T (mat_T A)) (mat_T (matmul A P))"
    using AP TA assms(5,4,5) by (rule mat_T_matmul)
  also have "\<dots> = matmul A (matmul (mat_T P) (mat_T A))"
    using mat_T_T [OF assms(3,5,4)] mat_T_matmul [OF assms(3,2,5,4,4)] by simp
  also have "\<dots> = matmul (matmul A P) (mat_T A)"
    using matmul_assoc [OF assms(3,2) TA assms(4,4)] PT by simp
  finally show ?thesis by (simp add: sym_mat_def)
qed

lemma psd_madd:
  assumes "psd n A" and "psd n B" and "wf_mat n n A" and "wf_mat n n B"
  shows "psd n (madd A B)"
  unfolding psd_def
proof (intro allI impI)
  fix v :: vec assume v: "length v = n"
  have S: "wf_mat n n (madd A B)" using assms(3,4) by (rule wf_madd)
  have "dot v (mat_vec (madd A B) v) = (\<Sum>i<n. v ! i * mat_vec (madd A B) v ! i)"
    using dot_sum [of v "mat_vec (madd A B) v"] v S by (simp add: length_mat_vec wf_mat_length)
  also have "\<dots> = (\<Sum>i<n. v ! i * (mat_vec A v ! i + mat_vec B v ! i))"
  proof (intro sum.cong refl)
    fix i assume "i \<in> {..<n}"
    then have i: "i < n" by simp
    have "mat_vec (madd A B) v ! i = (\<Sum>k<n. madd A B ! i ! k * v ! k)"
      using S v i by (rule mat_vec_nth)
    also have "\<dots> = (\<Sum>k<n. A ! i ! k * v ! k + B ! i ! k * v ! k)"
      by (intro sum.cong refl) (simp add: madd_nth [OF assms(3,4) i] distrib_right)
    also have "\<dots> = mat_vec A v ! i + mat_vec B v ! i"
      by (simp add: sum.distrib mat_vec_nth [OF assms(3) v i] mat_vec_nth [OF assms(4) v i])
    finally show "v ! i * mat_vec (madd A B) v ! i = v ! i * (mat_vec A v ! i + mat_vec B v ! i)"
      by simp
  qed
  also have "\<dots> = (\<Sum>i<n. v ! i * mat_vec A v ! i) + (\<Sum>i<n. v ! i * mat_vec B v ! i)"
    by (simp add: distrib_left sum.distrib)
  also have "\<dots> = dot v (mat_vec A v) + dot v (mat_vec B v)"
    using dot_sum [of v "mat_vec A v"] dot_sum [of v "mat_vec B v"] v assms(3,4)
    by (simp add: length_mat_vec wf_mat_length)
  finally show "0 \<le> dot v (mat_vec (madd A B) v)"
    using assms(1,2) v by (simp add: psd_def)
qed

lemma sym_madd:
  assumes "sym_mat A" and "sym_mat B" and "wf_mat n n A" and "wf_mat n n B" and "0 < n"
  shows "sym_mat (madd A B)"
  using mat_T_madd [OF assms(3,4,5)] assms(1,2) by (simp add: sym_mat_def)

lemma sym_diag: "0 < length s \<Longrightarrow> sym_mat (diag s)"
  unfolding sym_mat_def
proof (rule mat_eqI [of "length s" "length s"])
  assume p: "0 < length s"
  show "wf_mat (length s) (length s) (mat_T (diag s))" using wf_diag p by (rule wf_mat_T)
  show "wf_mat (length s) (length s) (diag s)" by (rule wf_diag)
  fix i j assume i: "i < length s" and j: "j < length s"
  show "mat_T (diag s) ! i ! j = diag s ! i ! j"
    using mat_T_nth [OF wf_diag p j i] i j by (auto simp: diag_nth)
qed

lemma psd_diag_square: "psd (length s) (diag (square s))"
  unfolding psd_def
proof (intro allI impI)
  fix v :: vec assume v: "length v = length s"
  have ls: "length (square s) = length s" by (simp add: square_def)
  have wf: "wf_mat (length s) (length s) (diag (square s))"
    using wf_diag [of "square s"] ls by simp
  have "dot v (mat_vec (diag (square s)) v) =
          (\<Sum>i<length s. v ! i * mat_vec (diag (square s)) v ! i)"
    using dot_sum [of v "mat_vec (diag (square s)) v"] v wf
    by (simp add: length_mat_vec wf_mat_length)
  also have "\<dots> = (\<Sum>i<length s. (v ! i * s ! i) * (v ! i * s ! i))"
  proof (intro sum.cong refl)
    fix i assume "i \<in> {..<length s}"
    then have i: "i < length s" by simp
    have "mat_vec (diag (square s)) v ! i = (\<Sum>k<length s. diag (square s) ! i ! k * v ! k)"
      using wf v i by (rule mat_vec_nth)
    also have "\<dots> = (\<Sum>k<length s. if k = i then (s ! i * s ! i) * v ! k else 0)"
      using i ls by (intro sum.cong refl) (auto simp: diag_nth square_def)
    also have "\<dots> = (s ! i * s ! i) * v ! i" using i by simp
    finally show "v ! i * mat_vec (diag (square s)) v ! i = (v ! i * s ! i) * (v ! i * s ! i)"
      by (simp add: mult_ac)
  qed
  finally show "0 \<le> dot v (mat_vec (diag (square s)) v)"
    by (simp add: sum_nonneg)
qed

lemma P0_diag:
  assumes "length sz = n" and "length sv = n"
  shows "k_P0 (KalmanTracker_init n sz sv) = diag (square (sz @ sv))"
proof (rule mat_eqI [of "2 * n" "2 * n"])
  have lz: "length (square sz) = n" and lv: "length (square sv) = n"
    using assms by (simp_all add: square_def)
  have wz: "wf_mat n n (diag (square sz))" and wv: "wf_mat n n (diag (square sv))"
    using wf_diag [of "square sz"] wf_diag [of "square sv"] lz lv by simp_all
  have top: "wf_mat n (n + n) (map2 (@) (diag (square sz)) (zeros n n))"
    using wz wf_zeros by (rule wf_hcat)
  have bot: "wf_mat n (n + n) (map2 (@) (zeros n n) (diag (square sv)))"
    using wf_zeros wv by (rule wf_hcat)
  have "wf_mat (n + n) (n + n) (k_P0 (KalmanTracker_init n sz sv))"
    unfolding KalmanTracker_init_fields using top bot by (rule wf_vcat)
  then show "wf_mat (2 * n) (2 * n) (k_P0 (KalmanTracker_init n sz sv))" by (simp add: mult_2)
  have "length (square (sz @ sv)) = 2 * n" using assms by (simp add: square_def)
  then show "wf_mat (2 * n) (2 * n) (diag (square (sz @ sv)))"
    using wf_diag [of "square (sz @ sv)"] by simp
  fix i j assume i: "i < 2 * n" and j: "j < 2 * n"
  have sq: "square (sz @ sv) = square sz @ square sv" by (simp add: square_def)
  have ld: "length (square sz @ square sv) = 2 * n" using lz lv by simp
  show "k_P0 (KalmanTracker_init n sz sv) ! i ! j = diag (square (sz @ sv)) ! i ! j"
  proof (cases "i < n")
    case True
    have "k_P0 (KalmanTracker_init n sz sv) ! i = map2 (@) (diag (square sz)) (zeros n n) ! i"
      using True wf_mat_length [OF top] by (simp add: KalmanTracker_init_fields nth_append)
    then have "k_P0 (KalmanTracker_init n sz sv) ! i ! j =
                 (if j < n then diag (square sz) ! i ! j else zeros n n ! i ! (j - n))"
      using hcat_nth [OF wz wf_zeros True, of n j] by simp
    then show ?thesis
      using True i j lz ld sq by (auto simp: diag_nth zeros_nth nth_append)
  next
    case False
    then have in': "i - n < n" using i by simp
    have "k_P0 (KalmanTracker_init n sz sv) ! i =
            map2 (@) (zeros n n) (diag (square sv)) ! (i - n)"
      using False wf_mat_length [OF top] by (simp add: KalmanTracker_init_fields nth_append)
    then have "k_P0 (KalmanTracker_init n sz sv) ! i ! j =
                 (if j < n then zeros n n ! (i - n) ! j else diag (square sv) ! (i - n) ! (j - n))"
      using hcat_nth [OF wf_zeros wv in', of n j] by simp
    then show ?thesis
      using False in' i j lz lv ld sq by (auto simp: diag_nth zeros_nth nth_append)
  qed
qed

section \<open>The covariance of the filter update\<close>

text \<open>The Joseph form: with a gain \<open>K\<close> that solves \<open>K S = P H\<^sup>T\<close> for
  \<open>S = H P H\<^sup>T + R\<close>, the updated covariance \<open>(I - K H) P\<close> is
  \<open>(I - K H) P (I - K H)\<^sup>T + K R K\<^sup>T\<close>.\<close>

lemma joseph_form:
  fixes N n :: nat
  assumes N: "0 < N" and n: "0 < n"
    and P: "wf_mat N N P" and H: "wf_mat n N H" and R: "wf_mat n n R" and K: "wf_mat N n K"
    and gain: "matmul K (madd (matmul (matmul H P) (mat_T H)) R) = matmul P (mat_T H)"
  shows "matmul (msub (eye N) (matmul K H)) P =
           madd (matmul (matmul (msub (eye N) (matmul K H)) P) (mat_T (msub (eye N) (matmul K H))))
                (matmul (matmul K R) (mat_T K))"
proof -
  define G where "G = msub (eye N) (matmul K H)"
  define B where "B = matmul P (mat_T H)"
  define S where "S = madd (matmul (matmul H P) (mat_T H)) R"
  have TH: "wf_mat N n (mat_T H)" using H n by (rule wf_mat_T)
  have TK: "wf_mat n N (mat_T K)" using K N by (rule wf_mat_T)
  have wB: "wf_mat N n B" unfolding B_def using P TH N by (rule wf_matmul)
  have HP: "wf_mat n N (matmul H P)" using H P N by (rule wf_matmul)
  have HPH: "wf_mat n n (matmul (matmul H P) (mat_T H))" using HP TH N by (rule wf_matmul)
  have wS: "wf_mat n n S" unfolding S_def using HPH R by (rule wf_madd)
  have KH: "wf_mat N N (matmul K H)" using K H n by (rule wf_matmul)
  have wG: "wf_mat N N G" unfolding G_def using wf_eye KH by (rule wf_msub)
  have GP: "wf_mat N N (matmul G P)" using wG P N by (rule wf_matmul)
  have KR: "wf_mat N n (matmul K R)" using K R n by (rule wf_matmul)
  have THTK: "wf_mat N N (matmul (mat_T H) (mat_T K))" using TH TK n by (rule wf_matmul)
  have KRK: "wf_mat N N (matmul (matmul K R) (mat_T K))" using KR TK n by (rule wf_matmul)
  have KS: "matmul K S = B" using gain by (simp add: S_def B_def)
  have TG: "mat_T G = msub (eye N) (matmul (mat_T H) (mat_T K))"
    unfolding G_def
    using mat_T_msub [OF wf_eye KH N] mat_T_eye [OF N] mat_T_matmul [OF K H N n N] by simp
  have HB: "matmul H B = msub S R"
  proof -
    have "matmul H B = matmul (matmul H P) (mat_T H)"
      unfolding B_def using matmul_assoc [OF H P TH N N] by simp
    also have "\<dots> = msub S R" unfolding S_def using msub_madd_cancel [OF HPH R] by simp
    finally show ?thesis .
  qed
  have GB: "matmul G B = matmul K R"
  proof -
    have "matmul G B = msub (matmul (eye N) B) (matmul (matmul K H) B)"
      unfolding G_def using wf_eye KH wB N by (rule matmul_msub_left)
    also have "matmul (eye N) B = B" using wB N by (rule matmul_eye_left)
    also have "matmul (matmul K H) B = matmul K (matmul H B)"
      using K H wB n N by (rule matmul_assoc)
    also have "\<dots> = matmul K (msub S R)" using HB by simp
    also have "\<dots> = msub (matmul K S) (matmul K R)" using K wS R n by (rule matmul_msub_right)
    also have "\<dots> = msub B (matmul K R)" using KS by simp
    finally have "matmul G B = msub B (msub B (matmul K R))" .
    then show ?thesis using msub_msub_cancel [OF wB KR] by simp
  qed
  have "matmul (matmul G P) (mat_T G) =
          msub (matmul (matmul G P) (eye N)) (matmul (matmul G P) (matmul (mat_T H) (mat_T K)))"
    unfolding TG using GP wf_eye THTK N by (rule matmul_msub_right)
  also have "matmul (matmul G P) (eye N) = matmul G P" using GP N by (rule matmul_eye_right)
  also have "matmul (matmul G P) (matmul (mat_T H) (mat_T K)) =
               matmul (matmul (matmul G P) (mat_T H)) (mat_T K)"
    using matmul_assoc [OF GP TH TK N n] by simp
  also have "matmul (matmul G P) (mat_T H) = matmul G B"
    unfolding B_def using wG P TH N N by (rule matmul_assoc)
  also have "\<dots> = matmul K R" by (rule GB)
  finally have "matmul (matmul G P) (mat_T G) =
                  msub (matmul G P) (matmul (matmul K R) (mat_T K))" .
  then have "madd (matmul (matmul G P) (mat_T G)) (matmul (matmul K R) (mat_T K)) = matmul G P"
    using madd_msub_cancel [OF GP KRK] by simp
  then show ?thesis unfolding G_def by simp
qed

lemma wf_H: "wf_mat n (2 * n) (k_H (KalmanTracker_init n sz sv))"
  using wf_hcat [OF wf_eye wf_zeros, of n n] by (simp add: KalmanTracker_init_fields mult_2)

lemma wf_R: "length sz = n \<Longrightarrow> wf_mat n n (k_R (KalmanTracker_init n sz sv))"
  using wf_diag [of "square sz"] by (simp add: KalmanTracker_init_fields square_def)

lemma sym_psd_R:
  assumes "length sz = n" and "0 < n"
  shows "sym_mat (k_R (KalmanTracker_init n sz sv))" and "psd n (k_R (KalmanTracker_init n sz sv))"
proof -
  have l: "length (square sz) = n" using assms(1) by (simp add: square_def)
  show "sym_mat (k_R (KalmanTracker_init n sz sv))"
    using sym_diag [of "square sz"] l assms(2) by (simp add: KalmanTracker_init_fields)
  show "psd n (k_R (KalmanTracker_init n sz sv))"
    using psd_diag_square [of sz] assms(1) by (simp add: KalmanTracker_init_fields)
qed

lemma sym_psd_P0:
  assumes "length sz = n" and "length sv = n" and "0 < n"
  shows "sym_mat (k_P0 (KalmanTracker_init n sz sv))"
    and "psd (2 * n) (k_P0 (KalmanTracker_init n sz sv))"
proof -
  have l: "length (square (sz @ sv)) = 2 * n" using assms(1,2) by (simp add: square_def)
  show "sym_mat (k_P0 (KalmanTracker_init n sz sv))"
    unfolding P0_diag [OF assms(1,2)] using sym_diag [of "square (sz @ sv)"] l assms(3) by simp
  show "psd (2 * n) (k_P0 (KalmanTracker_init n sz sv))"
    unfolding P0_diag [OF assms(1,2)] using psd_diag_square [of "sz @ sv"] assms(1,2)
    by (simp add: mult_2)
qed

lemma predict_cov:
  assumes "0 < n" and "wf_mat (2 * n) (2 * n) P" and "sym_mat P" and "psd (2 * n) P"
  shows "snd (KalmanTracker_predict (KalmanTracker_init n sz sv) x P dt) =
           matmul (matmul (trans_F (KalmanTracker_init n sz sv) dt) P)
                  (mat_T (trans_F (KalmanTracker_init n sz sv) dt))"
    and "wf_mat (2 * n) (2 * n) (snd (KalmanTracker_predict (KalmanTracker_init n sz sv) x P dt))"
    and "sym_mat (snd (KalmanTracker_predict (KalmanTracker_init n sz sv) x P dt))"
    and "psd (2 * n) (snd (KalmanTracker_predict (KalmanTracker_init n sz sv) x P dt))"
proof -
  let ?k = "KalmanTracker_init n sz sv"
  let ?F = "trans_F ?k dt"
  have p: "0 < 2 * n" using assms(1) by simp
  have wF: "wf_mat (2 * n) (2 * n) ?F" by (rule wf_trans_F)
  show eq: "snd (KalmanTracker_predict ?k x P dt) = matmul (matmul ?F P) (mat_T ?F)"
    by (simp add: KalmanTracker_predict_def Let_def)
  have FP: "wf_mat (2 * n) (2 * n) (matmul ?F P)" using wF assms(2) p by (rule wf_matmul)
  have TF: "wf_mat (2 * n) (2 * n) (mat_T ?F)" using wF p by (rule wf_mat_T)
  show "wf_mat (2 * n) (2 * n) (snd (KalmanTracker_predict ?k x P dt))"
    unfolding eq using FP TF p by (rule wf_matmul)
  show "sym_mat (snd (KalmanTracker_predict ?k x P dt))"
    unfolding eq using assms(3,2) wF p p by (rule sym_congruence)
  show "psd (2 * n) (snd (KalmanTracker_predict ?k x P dt))"
    unfolding eq using assms(4,2) wF p p by (rule psd_congruence)
qed

lemma update_cov:
  assumes n: "0 < n" and sz: "length sz = n"
    and P1: "wf_mat (2 * n) (2 * n) P1" and symP1: "sym_mat P1" and psdP1: "psd (2 * n) P1"
    and sol: "solve (madd (matmul (matmul (k_H (KalmanTracker_init n sz sv)) P1)
                                 (mat_T (k_H (KalmanTracker_init n sz sv))))
                          (k_R (KalmanTracker_init n sz sv)))
                    (mat_T (matmul P1 (mat_T (k_H (KalmanTracker_init n sz sv))))) = Some X"
  shows "matmul (mat_T X)
           (madd (matmul (matmul (k_H (KalmanTracker_init n sz sv)) P1)
                         (mat_T (k_H (KalmanTracker_init n sz sv))))
                 (k_R (KalmanTracker_init n sz sv))) =
         matmul P1 (mat_T (k_H (KalmanTracker_init n sz sv)))"
    and "sym_mat (matmul (msub (eye (2 * n))
                            (matmul (mat_T X) (k_H (KalmanTracker_init n sz sv)))) P1)"
    and "psd (2 * n) (matmul (msub (eye (2 * n))
                            (matmul (mat_T X) (k_H (KalmanTracker_init n sz sv)))) P1)"
proof -
  let ?k = "KalmanTracker_init n sz sv"
  define H where "H = k_H ?k"
  define R where "R = k_R ?k"
  define S where "S = madd (matmul (matmul H P1) (mat_T H)) R"
  define B where "B = matmul P1 (mat_T H)"
  define K where "K = mat_T X"
  define G where "G = msub (eye (2 * n)) (matmul K H)"
  have N: "0 < 2 * n" using n by simp
  have wH: "wf_mat n (2 * n) H" unfolding H_def by (rule wf_H)
  have wR: "wf_mat n n R" unfolding R_def using sz by (rule wf_R)
  have symR: "sym_mat R" and psdR: "psd n R" unfolding R_def using sym_psd_R [OF sz n] by simp_all
  have TH: "wf_mat (2 * n) n (mat_T H)" using wH n by (rule wf_mat_T)
  have wB: "wf_mat (2 * n) n B" unfolding B_def using P1 TH N by (rule wf_matmul)
  have TB: "wf_mat n (2 * n) (mat_T B)" using wB N by (rule wf_mat_T)
  have HP: "wf_mat n (2 * n) (matmul H P1)" using wH P1 N by (rule wf_matmul)
  have HPH: "wf_mat n n (matmul (matmul H P1) (mat_T H))" using HP TH N by (rule wf_matmul)
  have wS: "wf_mat n n S" unfolding S_def using HPH wR by (rule wf_madd)
  have symS: "sym_mat S"
    unfolding S_def using sym_congruence [OF symP1 P1 wH N n] symR HPH wR n by (rule sym_madd)
  have sol': "solve S (mat_T B) = Some X" using sol by (simp add: S_def B_def H_def R_def)
  have wX: "wf_mat n (2 * n) X" and SX: "matmul S X = mat_T B"
    using solve_sound [OF wS TB n sol'] by simp_all
  have wK: "wf_mat (2 * n) n K" unfolding K_def using wX n by (rule wf_mat_T)
  have "mat_T (matmul S X) = matmul (mat_T X) (mat_T S)"
    using wS wX n n N by (rule mat_T_matmul)
  then have "matmul K S = mat_T (mat_T B)"
    using SX symS by (simp add: K_def sym_mat_def)
  then have KS: "matmul K S = B" using mat_T_T [OF wB N n] by simp
  then show "matmul (mat_T X) (madd (matmul (matmul (k_H ?k) P1) (mat_T (k_H ?k))) (k_R ?k)) =
               matmul P1 (mat_T (k_H ?k))"
    by (simp add: K_def S_def B_def H_def R_def)
  have gain: "matmul K (madd (matmul (matmul H P1) (mat_T H)) R) = matmul P1 (mat_T H)"
    using KS by (simp add: S_def B_def)
  have wG: "wf_mat (2 * n) (2 * n) G"
    unfolding G_def using wf_eye wf_matmul [OF wK wH n] by (rule wf_msub)
  have jos: "matmul G P1 = madd (matmul (matmul G P1) (mat_T G)) (matmul (matmul K R) (mat_T K))"
    unfolding G_def using N n P1 wH wR wK gain by (rule joseph_form)
  have w1: "wf_mat (2 * n) (2 * n) (matmul (matmul G P1) (mat_T G))"
    using wf_matmul [OF wG P1 N] wf_mat_T [OF wG N] N by (rule wf_matmul)
  have w2: "wf_mat (2 * n) (2 * n) (matmul (matmul K R) (mat_T K))"
    using wf_matmul [OF wK wR n] wf_mat_T [OF wK N] n by (rule wf_matmul)
  have "sym_mat (madd (matmul (matmul G P1) (mat_T G)) (matmul (matmul K R) (mat_T K)))"
    using sym_congruence [OF symP1 P1 wG N N] sym_congruence [OF symR wR wK n N] w1 w2 N
    by (rule sym_madd)
  then have "sym_mat (matmul G P1)" by (subst jos)
  then show "sym_mat (matmul (msub (eye (2 * n)) (matmul (mat_T X) (k_H ?k))) P1)"
    by (simp add: G_def K_def H_def)
  have "psd (2 * n) (madd (matmul (matmul G P1) (mat_T G)) (matmul (matmul K R) (mat_T K)))"
    using psd_congruence [OF psdP1 P1 wG N N] psd_congruence [OF psdR wR wK n N] w1 w2
    by (rule psd_madd)
  then have "psd (2 * n) (matmul G P1)" by (subst jos)
  then show "psd (2 * n) (matmul (msub (eye (2 * n)) (matmul (mat_T X) (k_H ?k))) P1)"
    by (simp add: G_def K_def H_def)
qed

text \<open>
  Claim C7. For a filter built from \<open>n > 0\<close> dimensions and noise vectors of length
  \<open>n\<close>, and a symmetric positive semi-definite \<open>2n \<times> 2n\<close> covariance \<open>P\<close>, over exact
  arithmetic: \<^verbatim>\<open>start\<close> returns \<open>P0\<close>, \<^verbatim>\<open>predict\<close> returns \<open>F P F\<^sup>T\<close>, and \<^verbatim>\<open>update\<close>,
  whenever its solve succeeds, returns \<open>(I - K H) P'\<close> for a gain with \<open>K S = P' H\<^sup>T\<close>;
  each of these covariances is symmetric and positive semi-definite, for every
  duration and every measurement.
\<close>

theorem covariance_stays_psd:
  assumes "0 < n" and "length sz = n" and "length sv = n"
    and "wf_mat (2 * n) (2 * n) P" and "sym_mat P" and "psd (2 * n) P"
    and "k = KalmanTracker_init n sz sv"
    and "P1 = snd (KalmanTracker_predict k x P dt)"
  shows "snd (KalmanTracker_start k z) = k_P0 k \<and> sym_mat (k_P0 k) \<and> psd (2 * n) (k_P0 k)
         \<and> P1 = matmul (matmul (trans_F k dt) P) (mat_T (trans_F k dt))
         \<and> sym_mat P1 \<and> psd (2 * n) P1
         \<and> (\<forall>x2 P2. KalmanTracker_update k x P z dt = Inr (x2, P2) \<longrightarrow>
               (\<exists>K. matmul K (madd (matmul (matmul (k_H k) P1) (mat_T (k_H k))) (k_R k))
                       = matmul P1 (mat_T (k_H k))
                     \<and> P2 = matmul (msub (eye (2 * n)) (matmul K (k_H k))) P1)
               \<and> sym_mat P2 \<and> psd (2 * n) P2)"
proof -
  note pc = predict_cov [OF assms(1,4,5,6), of sz sv x dt, folded assms(7), folded assms(8)]
  have start: "snd (KalmanTracker_start k z) = k_P0 k"
    by (simp add: KalmanTracker_start_def Let_def)
  have P0: "sym_mat (k_P0 k)" "psd (2 * n) (k_P0 k)"
    unfolding assms(7) using sym_psd_P0 [OF assms(2,3,1)] by simp_all
  have upd: "(\<exists>K. matmul K (madd (matmul (matmul (k_H k) P1) (mat_T (k_H k))) (k_R k))
                       = matmul P1 (mat_T (k_H k))
                     \<and> P2 = matmul (msub (eye (2 * n)) (matmul K (k_H k))) P1)
               \<and> sym_mat P2 \<and> psd (2 * n) P2"
    if u: "KalmanTracker_update k x P z dt = Inr (x2, P2)" for x2 P2
  proof -
    obtain x1 where pr: "KalmanTracker_predict k x P dt = (x1, P1)"
      using assms(8) by (cases "KalmanTracker_predict k x P dt") simp
    from u pr obtain X where
      sol: "solve (madd (matmul (matmul (k_H k) P1) (mat_T (k_H k))) (k_R k))
                  (mat_T (matmul P1 (mat_T (k_H k)))) = Some X"
      and P2: "P2 = matmul (msub (eye (2 * k_ndim k)) (matmul (mat_T X) (k_H k))) P1"
      by (auto simp: KalmanTracker_update_def Let_def split: option.splits)
    have nd: "k_ndim k = n" by (simp add: assms(7) KalmanTracker_init_fields)
    note uc = update_cov [OF assms(1,2) pc(2,3,4) sol [unfolded assms(7)], folded assms(7)]
    have "matmul (mat_T X) (madd (matmul (matmul (k_H k) P1) (mat_T (k_H k))) (k_R k))
            = matmul P1 (mat_T (k_H k))
          \<and> P2 = matmul (msub (eye (2 * n)) (matmul (mat_T X) (k_H k))) P1"
      using uc(1) P2 nd by simp
    then have ex: "\<exists>K. matmul K (madd (matmul (matmul (k_H k) P1) (mat_T (k_H k))) (k_R k))
                       = matmul P1 (mat_T (k_H k))
                     \<and> P2 = matmul (msub (eye (2 * n)) (matmul K (k_H k))) P1"
      by (rule exI)
    show ?thesis using ex uc(2,3) P2 nd by simp
  qed
  show ?thesis using start P0 pc(1,3,4) upd by blast
qed

lemma demo_predict1:
  "KalmanTracker_predict demo_kalman [1, 2] [[1, 0], [0, 1]] 1 = ([3, 2], [[2, 1], [1, 1]])"
  by code_simp

theorem predict_composes_witness:
  "KalmanTracker_predict demo_kalman [1, 2] [[1, 0], [0, 1]] 1 = ([3, 2], [[2, 1], [1, 1]])
   \<and> KalmanTracker_predict demo_kalman [3, 2] [[2, 1], [1, 1]] 2 =
       KalmanTracker_predict demo_kalman [1, 2] [[1, 0], [0, 1]] 3
   \<and> KalmanTracker_predict demo_kalman [1, 2] [[1, 0], [0, 1]] 0 = ([1, 2], [[1, 0], [0, 1]])"
proof -
  have n: "0 < (1 :: nat)" by simp
  have x: "length [1, 2 :: real] = 2 * 1" by simp
  have P: "wf_mat (2 * 1) (2 * 1) [[1, 0], [0, 1]]" by (simp add: wf_mat_def)
  from predict_composes [OF n x P, where sz = "[1]" and sv = "[1]" and ?dt1.0 = 1
      and ?dt2.0 = 2]
  show ?thesis using demo_predict1 by (simp add: demo_kalman_def)
qed

lemma demo_filter_update:
  "KalmanTracker_update demo_kalman [0, 0] [[1, 0], [0, 1]] [1] 1 =
     Inr ([2 / 3, 1 / 3], [[2 / 3, 1 / 3], [1 / 3, 2 / 3]])"
  by code_simp

lemma psd_unit2: "psd 2 [[1, 0], [0, 1]]"
  unfolding psd_def
proof (intro allI impI)
  fix v :: vec assume "length v = 2"
  then obtain a b where v: "v = [a, b]"
    by (metis (no_types, opaque_lifting) One_nat_def Suc_1 length_0_conv length_Suc_conv)
  show "0 \<le> dot v (mat_vec [[1, 0], [0, 1]] v)"
    unfolding v by (simp add: dot_def mat_vec_def)
qed

theorem covariance_stays_psd_witness:
  "KalmanTracker_update demo_kalman [0, 0] [[1, 0], [0, 1]] [1] 1 =
     Inr ([2 / 3, 1 / 3], [[2 / 3, 1 / 3], [1 / 3, 2 / 3]])
   \<and> sym_mat [[2 / 3, 1 / 3], [1 / 3, 2 / 3]] \<and> psd 2 [[2 / 3, 1 / 3], [1 / 3, 2 / 3]]
   \<and> psd 2 (k_P0 demo_kalman)
   \<and> psd 2 (snd (KalmanTracker_predict demo_kalman [0, 0] [[1, 0], [0, 1]] 1))"
proof -
  have n: "0 < (1 :: nat)" by simp
  have l: "length [1 :: real] = 1" by simp
  have P: "wf_mat (2 * 1) (2 * 1) [[1, 0], [0, 1]]" by (simp add: wf_mat_def)
  have s: "sym_mat [[1, 0], [0, 1]]"
    by (simp add: sym_mat_def mat_T_def ncols_def col_def upt_rec)
  have p: "psd (2 * 1) [[1, 0], [0, 1]]" using psd_unit2 by simp
  note th = covariance_stays_psd [OF n l l P s p demo_kalman_def refl, where x = "[0, 0]"
      and dt = 1 and z = "[1]", unfolded nat_mult_1_right]
  from th demo_filter_update
  have a: "sym_mat [[2 / 3, 1 / 3], [1 / 3, 2 / 3]] \<and> psd 2 [[2 / 3, 1 / 3], [1 / 3, 2 / 3]]"
    by blast
  from th have b: "psd 2 (k_P0 demo_kalman)" by (elim conjE)
  from th have c: "psd 2 (snd (KalmanTracker_predict demo_kalman [0, 0] [[1, 0], [0, 1]] 1))"
    by (elim conjE)
  show ?thesis using demo_filter_update a b c by (intro conjI) (elim conjE, assumption)+
qed

section \<open>The solve fails on singular matrices only\<close>

lemma find_pivot_None:
  "find_pivot rows = None \<Longrightarrow> \<forall>r \<in> set rows. fst r = [] \<or> hd (fst r) = 0"
proof (induction rows)
  case Nil
  then show ?case by simp
next
  case (Cons r rows)
  obtain a b where r: "r = (a, b)" by (cases r)
  from Cons.prems r have z: "a = [] \<or> hd a = 0" and rec: "find_pivot rows = None"
    by (auto split: if_splits option.splits)
  from Cons.IH [OF rec] z r show ?case by simp
qed

lemma dot_zeros_right: "dot u (replicate n 0) = 0"
proof (induction u arbitrary: n)
  case Nil
  then show ?case by (simp add: dot_def)
next
  case (Cons a u)
  then show ?case by (cases n) (simp_all add: dot_def)
qed

lemma gauss_complete:
  assumes "length rows = n"
    and "\<forall>r \<in> set rows. length (fst r) = n \<and> length (snd r) = m"
    and "\<forall>v. length v = n \<longrightarrow> (\<forall>r \<in> set rows. dot (fst r) v = 0) \<longrightarrow> v = replicate n 0"
  shows "\<exists>X. gauss m n rows = Some X"
  using assms
proof (induction n arbitrary: rows)
  case 0
  then show ?case by simp
next
  case (Suc n)
  have shape: "length c = Suc n \<and> length d = m" if "(c, d) \<in> set rows" for c d
    using Suc.prems(2) that by fastforce
  have "find_pivot rows \<noteq> None"
  proof
    assume "find_pivot rows = None"
    then have z: "\<forall>r \<in> set rows. fst r = [] \<or> hd (fst r) = 0" by (rule find_pivot_None)
    let ?v = "1 # replicate n (0 :: real)"
    have "\<forall>r \<in> set rows. dot (fst r) ?v = 0"
    proof
      fix r assume r: "r \<in> set rows"
      obtain c d where cd: "r = (c, d)" by (cases r)
      then have "length c = Suc n" using shape r by simp
      then obtain h tc where c: "c = h # tc" by (cases c) auto
      then have "h = 0" using z r cd by auto
      then show "dot (fst r) ?v = 0" using cd c by (simp add: dot_Cons dot_zeros_right)
    qed
    moreover have "length ?v = Suc n" by simp
    ultimately have "?v = replicate (Suc n) 0" using Suc.prems(3) by blast
    then show False by simp
  qed
  then obtain a b rest where fp: "find_pivot rows = Some ((a, b), rest)"
    by (cases "find_pivot rows") auto
  note piv = find_pivot_Some [OF fp]
  define p where "p = hd a"
  define a' where "a' = map (\<lambda>c. c / p) (tl a)"
  define b' where "b' = map (\<lambda>c. c / p) b"
  define reduced where
    "reduced = map (\<lambda>(c, d). (vsub (tl c) (vscale (hd c) a'), vsub d (vscale (hd c) b'))) rest"
  have ab: "(a, b) \<in> set rows" and restsub: "set rest \<subseteq> set rows"
    using piv(3) by auto
  have la: "length a = Suc n" and lb: "length b = m" using shape [OF ab] by simp_all
  have la': "length a' = n" and lb': "length b' = m" using la lb by (simp_all add: a'_def b'_def)
  have p0: "p \<noteq> 0" using piv(2) by (simp add: p_def)
  have lred: "length reduced = n" using piv(4) Suc.prems(1) by (simp add: reduced_def)
  have sred: "\<forall>r \<in> set reduced. length (fst r) = n \<and> length (snd r) = m"
  proof
    fix r assume "r \<in> set reduced"
    then obtain c d where cd: "(c, d) \<in> set rest"
      and r: "r = (vsub (tl c) (vscale (hd c) a'), vsub d (vscale (hd c) b'))"
      by (auto simp: reduced_def)
    have "length c = Suc n" "length d = m" using shape cd restsub by auto
    then show "length (fst r) = n \<and> length (snd r) = m"
      using r la' lb' by (simp add: vsub_def vscale_def)
  qed
  have kred: "\<forall>v. length v = n \<longrightarrow> (\<forall>r \<in> set reduced. dot (fst r) v = 0)
                \<longrightarrow> v = replicate n 0"
  proof (intro allI impI)
    fix v' :: vec assume lv: "length v' = n" and ker: "\<forall>r \<in> set reduced. dot (fst r) v' = 0"
    define x0 where "x0 = - dot a' v'"
    have da: "dot a' v' = dot (tl a) v' / p" by (simp add: a'_def dot_div_left)
    have split: "dot c (x0 # v') = hd c * x0 + dot (tl c) v'" if "length c = Suc n" for c
    proof -
      from that obtain h tc where "c = h # tc" by (cases c) auto
      then show ?thesis by (simp add: dot_Cons)
    qed
    have "\<forall>r \<in> set rows. dot (fst r) (x0 # v') = 0"
    proof
      fix r assume r: "r \<in> set rows"
      obtain c d where cd: "r = (c, d)" by (cases r)
      from r piv(3) cd have "(c, d) = (a, b) \<or> (c, d) \<in> set rest" by auto
      then show "dot (fst r) (x0 # v') = 0"
      proof
        assume "(c, d) = (a, b)"
        then show ?thesis
          using cd split [OF la] da p0 by (simp add: x0_def p_def [symmetric])
      next
        assume in_rest: "(c, d) \<in> set rest"
        have lc: "length c = Suc n" using shape in_rest restsub by auto
        let ?r = "(vsub (tl c) (vscale (hd c) a'), vsub d (vscale (hd c) b'))"
        have "?r \<in> set reduced" using in_rest by (force simp: reduced_def)
        then have "dot (fst ?r) v' = 0" using ker by blast
        then have "dot (tl c) v' - hd c * dot a' v' = 0"
          using dot_sub_scale [of "tl c" a' "hd c" v'] lc la' by simp
        then show ?thesis using cd split [OF lc] by (simp add: x0_def)
      qed
    qed
    moreover have "length (x0 # v') = Suc n" using lv by simp
    ultimately have "x0 # v' = replicate (Suc n) 0" using Suc.prems(3) by blast
    then show "v' = replicate n 0" by simp
  qed
  from Suc.IH [OF lred sred kred] obtain X' where "gauss m n reduced = Some X'" by blast
  then show ?case
    using fp by (simp add: Let_def p_def a'_def b'_def reduced_def)
qed

lemma solve_complete:
  assumes "wf_mat n n A" and "wf_mat n m B" and "0 < n" and "nonsingular n A"
  shows "\<exists>X. solve A B = Some X"
proof -
  have lA: "length A = n" and lB: "length B = n" using assms(1,2) by (simp_all add: wf_mat_def)
  have lz: "length (zip A B) = n" using lA lB by simp
  have sz: "\<forall>r \<in> set (zip A B). length (fst r) = n \<and> length (snd r) = m"
  proof
    fix r assume "r \<in> set (zip A B)"
    then have "fst r \<in> set A" "snd r \<in> set B"
      by (metis prod.collapse set_zip_leftD, metis prod.collapse set_zip_rightD)
    then show "length (fst r) = n \<and> length (snd r) = m"
      using assms(1,2) by (simp add: wf_mat_def list_all_iff)
  qed
  have ker: "\<forall>v. length v = n \<longrightarrow> (\<forall>r \<in> set (zip A B). dot (fst r) v = 0)
               \<longrightarrow> v = replicate n 0"
  proof (intro allI impI)
    fix v :: vec assume lv: "length v = n" and z: "\<forall>r \<in> set (zip A B). dot (fst r) v = 0"
    have "mat_vec A v = replicate n 0"
    proof (rule nth_equalityI)
      show "length (mat_vec A v) = length (replicate n (0 :: real))"
        using lA by (simp add: length_mat_vec)
      fix i assume "i < length (mat_vec A v)"
      then have i: "i < n" using lA by (simp add: length_mat_vec)
      have "(A ! i, B ! i) \<in> set (zip A B)" using i lA lB by (auto simp: set_zip)
      then have "dot (A ! i) v = 0" using z by fastforce
      then show "mat_vec A v ! i = replicate n 0 ! i" using i lA by (simp add: mat_vec_def)
    qed
    then show "v = replicate n 0" using assms(4) lv by (simp add: nonsingular_def)
  qed
  from gauss_complete [OF lz sz ker] show ?thesis
    using ncols_wf [OF assms(2,3)] lA by (simp add: solve_def)
qed

lemma quad_madd:
  assumes "wf_mat n n A" and "wf_mat n n B" and "length v = n"
  shows "dot v (mat_vec (madd A B) v) = dot v (mat_vec A v) + dot v (mat_vec B v)"
proof -
  have S: "wf_mat n n (madd A B)" using assms(1,2) by (rule wf_madd)
  have "dot v (mat_vec (madd A B) v) = (\<Sum>i<n. v ! i * mat_vec (madd A B) v ! i)"
    using dot_sum [of v "mat_vec (madd A B) v"] assms(3) S
    by (simp add: length_mat_vec wf_mat_length)
  also have "\<dots> = (\<Sum>i<n. v ! i * (mat_vec A v ! i + mat_vec B v ! i))"
  proof (intro sum.cong refl)
    fix i assume "i \<in> {..<n}"
    then have i: "i < n" by simp
    have "mat_vec (madd A B) v ! i = (\<Sum>k<n. madd A B ! i ! k * v ! k)"
      using S assms(3) i by (rule mat_vec_nth)
    also have "\<dots> = (\<Sum>k<n. A ! i ! k * v ! k + B ! i ! k * v ! k)"
      by (intro sum.cong refl) (simp add: madd_nth [OF assms(1,2) i] distrib_right)
    also have "\<dots> = mat_vec A v ! i + mat_vec B v ! i"
      by (simp add: sum.distrib mat_vec_nth [OF assms(1,3) i] mat_vec_nth [OF assms(2,3) i])
    finally show "v ! i * mat_vec (madd A B) v ! i = v ! i * (mat_vec A v ! i + mat_vec B v ! i)"
      by simp
  qed
  also have "\<dots> = (\<Sum>i<n. v ! i * mat_vec A v ! i) + (\<Sum>i<n. v ! i * mat_vec B v ! i)"
    by (simp add: distrib_left sum.distrib)
  also have "\<dots> = dot v (mat_vec A v) + dot v (mat_vec B v)"
    using dot_sum [of v "mat_vec A v"] dot_sum [of v "mat_vec B v"] assms
    by (simp add: length_mat_vec wf_mat_length)
  finally show ?thesis .
qed

lemma quad_diag_square:
  assumes "length v = length s"
  shows "dot v (mat_vec (diag (square s)) v) = (\<Sum>i<length s. (v ! i * s ! i) * (v ! i * s ! i))"
proof -
  have ls: "length (square s) = length s" by (simp add: square_def)
  have wf: "wf_mat (length s) (length s) (diag (square s))"
    using wf_diag [of "square s"] ls by simp
  have "dot v (mat_vec (diag (square s)) v) =
          (\<Sum>i<length s. v ! i * mat_vec (diag (square s)) v ! i)"
    using dot_sum [of v "mat_vec (diag (square s)) v"] assms wf
    by (simp add: length_mat_vec wf_mat_length)
  also have "\<dots> = (\<Sum>i<length s. (v ! i * s ! i) * (v ! i * s ! i))"
  proof (intro sum.cong refl)
    fix i assume "i \<in> {..<length s}"
    then have i: "i < length s" by simp
    have "mat_vec (diag (square s)) v ! i = (\<Sum>k<length s. diag (square s) ! i ! k * v ! k)"
      using wf assms i by (rule mat_vec_nth)
    also have "\<dots> = (\<Sum>k<length s. if k = i then (s ! i * s ! i) * v ! k else 0)"
      using i ls by (intro sum.cong refl) (auto simp: diag_nth square_def)
    also have "\<dots> = (s ! i * s ! i) * v ! i" using i by simp
    finally show "v ! i * mat_vec (diag (square s)) v ! i = (v ! i * s ! i) * (v ! i * s ! i)"
      by (simp add: mult_ac)
  qed
  finally show ?thesis .
qed

text \<open>With measurement noise in every dimension the innovation covariance of a positive
  semi-definite prediction is nonsingular.\<close>

lemma nonsingular_S:
  assumes n: "0 < n" and sz: "length sz = n" and noise: "\<forall>c \<in> set sz. c \<noteq> 0"
    and P1: "wf_mat (2 * n) (2 * n) P1" and psdP1: "psd (2 * n) P1"
  shows "nonsingular n (madd (matmul (matmul (k_H (KalmanTracker_init n sz sv)) P1)
                                     (mat_T (k_H (KalmanTracker_init n sz sv))))
                             (k_R (KalmanTracker_init n sz sv)))"
  unfolding nonsingular_def
proof (intro allI impI)
  let ?k = "KalmanTracker_init n sz sv"
  let ?HPH = "matmul (matmul (k_H ?k) P1) (mat_T (k_H ?k))"
  fix v :: vec assume lv: "length v = n" and z: "mat_vec (madd ?HPH (k_R ?k)) v = replicate n 0"
  have N: "0 < 2 * n" using n by simp
  have wH: "wf_mat n (2 * n) (k_H ?k)" by (rule wf_H)
  have wR: "wf_mat n n (k_R ?k)" using sz by (rule wf_R)
  have HPH: "wf_mat n n ?HPH"
    using wf_matmul [OF wH P1 N] wf_mat_T [OF wH n] N by (rule wf_matmul)
  have q1: "0 \<le> dot v (mat_vec ?HPH v)"
    using psd_congruence [OF psdP1 P1 wH N n] lv by (simp add: psd_def)
  have R: "k_R ?k = diag (square sz)" by (simp add: KalmanTracker_init_fields)
  have q2: "dot v (mat_vec (k_R ?k) v) = (\<Sum>i<n. (v ! i * sz ! i) * (v ! i * sz ! i))"
    unfolding R using quad_diag_square [of v sz] lv sz by simp
  have "dot v (mat_vec (madd ?HPH (k_R ?k)) v) = 0"
    unfolding z by (rule dot_zeros_right)
  then have "dot v (mat_vec ?HPH v) + dot v (mat_vec (k_R ?k) v) = 0"
    using quad_madd [OF HPH wR lv] by simp
  moreover have "0 \<le> dot v (mat_vec (k_R ?k) v)" unfolding q2 by (simp add: sum_nonneg)
  ultimately have "dot v (mat_vec (k_R ?k) v) = 0" using q1 by linarith
  then have "(\<Sum>i<n. (v ! i * sz ! i) * (v ! i * sz ! i)) = 0" using q2 by simp
  then have all0: "\<forall>i \<in> {..<n}. (v ! i * sz ! i) * (v ! i * sz ! i) = 0"
    by (subst (asm) sum_nonneg_eq_0_iff) simp_all
  show "v = replicate n 0"
  proof (rule nth_equalityI)
    show "length v = length (replicate n (0 :: real))" using lv by simp
    fix i assume "i < length v"
    then have i: "i < n" using lv by simp
    then have "v ! i * sz ! i = 0" using all0 by simp
    moreover have "sz ! i \<noteq> 0" using noise i sz by simp
    ultimately show "v ! i = replicate n 0 ! i" using i by simp
  qed
qed

text \<open>So the update of such a filter returns on every symmetric positive semi-definite
  covariance, and a failing update has a singular innovation covariance.\<close>

lemma update_returns:
  assumes "0 < n" and "length sz = n" and "\<forall>c \<in> set sz. c \<noteq> 0"
    and "wf_mat (2 * n) (2 * n) P" and "sym_mat P" and "psd (2 * n) P"
  shows "\<exists>x2 P2. KalmanTracker_update (KalmanTracker_init n sz sv) x P z dt = Inr (x2, P2)"
proof -
  let ?k = "KalmanTracker_init n sz sv"
  obtain x1 P1 where pr: "KalmanTracker_predict ?k x P dt = (x1, P1)"
    by (cases "KalmanTracker_predict ?k x P dt")
  note pc = predict_cov [OF assms(1,4,5,6), of sz sv x dt, unfolded pr snd_conv]
  let ?S = "madd (matmul (matmul (k_H ?k) P1) (mat_T (k_H ?k))) (k_R ?k)"
  have N: "0 < 2 * n" using assms(1) by simp
  have wH: "wf_mat n (2 * n) (k_H ?k)" by (rule wf_H)
  have TH: "wf_mat (2 * n) n (mat_T (k_H ?k))" using wH assms(1) by (rule wf_mat_T)
  have wS: "wf_mat n n ?S"
    using wf_matmul [OF wf_matmul [OF wH pc(2) N] TH N] wf_R [OF assms(2)] by (rule wf_madd)
  have wB: "wf_mat n (2 * n) (mat_T (matmul P1 (mat_T (k_H ?k))))"
    using wf_matmul [OF pc(2) TH N] N by (rule wf_mat_T)
  have "nonsingular n ?S" using assms(1,2,3) pc(2,4) by (rule nonsingular_S)
  with wS wB assms(1) obtain X where
    "solve ?S (mat_T (matmul P1 (mat_T (k_H ?k)))) = Some X"
    using solve_complete by blast
  then show ?thesis using pr by (simp add: KalmanTracker_update_def Let_def)
qed

lemma update_fails_singular:
  assumes "0 < n" and "length sz = n" and "wf_mat (2 * n) (2 * n) P"
    and "KalmanTracker_update (KalmanTracker_init n sz sv) x P z dt = Inl err"
    and "P1 = snd (KalmanTracker_predict (KalmanTracker_init n sz sv) x P dt)"
  shows "\<not> nonsingular n (madd (matmul (matmul (k_H (KalmanTracker_init n sz sv)) P1)
                                       (mat_T (k_H (KalmanTracker_init n sz sv))))
                               (k_R (KalmanTracker_init n sz sv)))"
proof
  let ?k = "KalmanTracker_init n sz sv"
  let ?F = "trans_F ?k dt"
  let ?S = "madd (matmul (matmul (k_H ?k) P1) (mat_T (k_H ?k))) (k_R ?k)"
  assume ns: "nonsingular n ?S"
  have N: "0 < 2 * n" using assms(1) by simp
  have P1: "P1 = matmul (matmul ?F P) (mat_T ?F)"
    using assms(5) by (simp add: KalmanTracker_predict_def Let_def)
  have wF: "wf_mat (2 * n) (2 * n) ?F" by (rule wf_trans_F)
  have wP1: "wf_mat (2 * n) (2 * n) P1"
    unfolding P1 using wf_matmul [OF wF assms(3) N] wf_mat_T [OF wF N] N by (rule wf_matmul)
  have wH: "wf_mat n (2 * n) (k_H ?k)" by (rule wf_H)
  have TH: "wf_mat (2 * n) n (mat_T (k_H ?k))" using wH assms(1) by (rule wf_mat_T)
  have wS: "wf_mat n n ?S"
    using wf_matmul [OF wf_matmul [OF wH wP1 N] TH N] wf_R [OF assms(2)] by (rule wf_madd)
  have wB: "wf_mat n (2 * n) (mat_T (matmul P1 (mat_T (k_H ?k))))"
    using wf_matmul [OF wP1 TH N] N by (rule wf_mat_T)
  from solve_complete [OF wS wB assms(1) ns] obtain X where
    "solve ?S (mat_T (matmul P1 (mat_T (k_H ?k)))) = Some X" by blast
  then have "\<exists>r. KalmanTracker_update ?k x P z dt = Inr r"
    using P1 by (simp add: KalmanTracker_update_def KalmanTracker_predict_def Let_def)
  then show False using assms(4) by simp
qed

end
